theory Spec2Isabelle
  imports Main "HOL-Library.Word"
begin

unbundle bit_operations_syntax

section \<open>Common types\<close>

type_synonym u8 = "8 word"
type_synonym u32 = "32 word"

text \<open>A kernel assertion (\<^verbatim>\<open>BUG()\<close>, \<^verbatim>\<open>BUG_ON(c)\<close>) aborts the caller: it is
  the left summand of every result type below. \<^verbatim>\<open>OOB\<close> marks a read or write
  that leaves the memory the model represents.\<close>

datatype fault = BUG | OOB

text \<open>Linux errno values (asm-generic/errno-base.h, errno.h).\<close>

definition ENOENT :: int where "ENOENT = 2"
definition EIO :: int where "EIO = 5"
definition EAGAIN :: int where "EAGAIN = 11"
definition ENOMEM :: int where "ENOMEM = 12"
definition EEXIST :: int where "EEXIST = 17"
definition ENODEV :: int where "ENODEV = 19"
definition EINVAL :: int where "EINVAL = 22"
definition ENOSPC :: int where "ENOSPC = 28"

lemmas errno_defs =
  ENOENT_def EIO_def EAGAIN_def ENOMEM_def EEXIST_def ENODEV_def EINVAL_def ENOSPC_def

text \<open>The error kinds of the specification's taxonomy, and the kind an errno value
  stands for. This reading follows the specification's words (section 7):
  NoMemory is an allocation failure, NoSpace is the allocator running out of blocks.\<close>

datatype error_kind = NotFound | Invalid | Busy | NoMemory | NoSpace | IO | Protocol

definition errno_kind :: "int \<Rightarrow> error_kind option" where
  "errno_kind e =
     (if e = - ENOENT then Some NotFound
      else if e = - EINVAL then Some Invalid
      else if e = - EAGAIN \<or> e = - EEXIST then Some Busy
      else if e = - ENOMEM then Some NoMemory
      else if e = - ENOSPC then Some NoSpace
      else if e = - EIO then Some IO
      else None)"

text \<open>A disk block address: \<^verbatim>\<open>c_disk_blk_t\<close>.\<close>

record c_disk_blk =
  disk :: u32
  block :: u32

text \<open>Modelled from the spec: castle.h is not among the sources, so the INVALID
  sentinel of a disk block address is one fixed pair; no result below depends on
  which pair it is.\<close>

definition INVAL_DISK_BLK :: c_disk_blk where
  "INVAL_DISK_BLK = \<lparr>disk = 0, block = 0\<rparr>"

definition DISK_BLK_INVAL :: "c_disk_blk \<Rightarrow> bool" where
  "DISK_BLK_INVAL b = (b = INVAL_DISK_BLK)"

section \<open>Transfer engine (castle\_transfer.c)\<close>

datatype direction = CASTLE_TRANSFER_TO_TARGET | CASTLE_TRANSFER_TO_REGION | CASTLE_TRANSFER_OTHER

record castle_region =
  r_slave :: u32
  r_version :: u32
  r_length :: int

record castle_transfer =
  t_id :: int
  t_version :: u32
  t_direction :: direction
  t_regions :: "castle_region list"

text \<open>What the transfer engine reads from its collaborators and does not change:
  the target flag in the superblock of the slave holding a block, the three
  free-space calls, and whether a read submitted for a page completes up to date.\<close>

record transfer_env =
  slave_is_target :: "u32 \<Rightarrow> bool"
  freespace_block_get :: "u32 \<Rightarrow> c_disk_blk"
  freespace_blks_for_version_get :: "u32 \<Rightarrow> u32 \<Rightarrow> int"
  freespace_slave_block_get :: "u32 \<Rightarrow> u32 \<Rightarrow> c_disk_blk"
  read_completes_uptodate :: "c_disk_blk \<Rightarrow> bool"

text \<open>The state a block move changes: the transfer's two counters, the page cache
  (reference count, lock, up-to-date and dirty bits, private link and contents of each
  page), the calls made on the tree iterator, and the blocks given back to free space.\<close>

record transfer_state =
  phase :: int
  progress :: int
  c2p_count :: "c_disk_blk \<Rightarrow> nat"
  c2p_locked :: "c_disk_blk \<Rightarrow> bool"
  c2p_uptodate :: "c_disk_blk \<Rightarrow> bool"
  c2p_dirty :: "c_disk_blk \<Rightarrow> bool"
  c2p_private :: "c_disk_blk \<Rightarrow> c_disk_blk option"
  c2p_buffer :: "c_disk_blk \<Rightarrow> u8 list"
  iter_cancelled :: "int list"
  iter_continued :: nat
  freed :: "c_disk_blk list"

definition castle_cache_page_get :: "c_disk_blk \<Rightarrow> transfer_state \<Rightarrow> transfer_state" where
  "castle_cache_page_get b s = s\<lparr>c2p_count := (c2p_count s)(b := Suc (c2p_count s b))\<rparr>"

definition put_c2p :: "c_disk_blk \<Rightarrow> transfer_state \<Rightarrow> transfer_state" where
  "put_c2p b s = s\<lparr>c2p_count := (c2p_count s)(b := c2p_count s b - 1)\<rparr>"

definition lock_c2p :: "c_disk_blk \<Rightarrow> transfer_state \<Rightarrow> transfer_state" where
  "lock_c2p b s = s\<lparr>c2p_locked := (c2p_locked s)(b := True)\<rparr>"

definition unlock_c2p :: "c_disk_blk \<Rightarrow> transfer_state \<Rightarrow> transfer_state" where
  "unlock_c2p b s = s\<lparr>c2p_locked := (c2p_locked s)(b := False)\<rparr>"

definition dirty_c2p :: "c_disk_blk \<Rightarrow> transfer_state \<Rightarrow> transfer_state" where
  "dirty_c2p b s = s\<lparr>c2p_dirty := (c2p_dirty s)(b := True)\<rparr>"

definition castle_ftree_iter_cancel :: "int \<Rightarrow> transfer_state \<Rightarrow> transfer_state" where
  "castle_ftree_iter_cancel err s = s\<lparr>iter_cancelled := iter_cancelled s @ [err]\<rparr>"

definition castle_ftree_iter_continue :: "transfer_state \<Rightarrow> transfer_state" where
  "castle_ftree_iter_continue s = s\<lparr>iter_continued := Suc (iter_continued s)\<rparr>"

definition castle_freespace_block_free :: "c_disk_blk \<Rightarrow> transfer_state \<Rightarrow> transfer_state" where
  "castle_freespace_block_free b s = s\<lparr>freed := freed s @ [b]\<rparr>"

definition castle_transfer_is_block_on_correct_disk ::
  "transfer_env \<Rightarrow> castle_transfer \<Rightarrow> c_disk_blk \<Rightarrow> fault + bool" where
  "castle_transfer_is_block_on_correct_disk env tr cdb =
     (case t_direction tr of
        CASTLE_TRANSFER_TO_TARGET \<Rightarrow> Inr (slave_is_target env (disk cdb))
      | CASTLE_TRANSFER_TO_REGION \<Rightarrow> Inr (\<exists>r \<in> set (t_regions tr). r_slave r = disk cdb)
      | CASTLE_TRANSFER_OTHER \<Rightarrow> Inl BUG)"

text \<open>The loop of \<^verbatim>\<open>castle_transfer_get_destination\<close> over the regions: it stops at
  the first region below its quota whose slave yields a valid block.\<close>

fun region_destination :: "transfer_env \<Rightarrow> castle_region list \<Rightarrow> c_disk_blk" where
  "region_destination env [] = INVAL_DISK_BLK"
| "region_destination env (r # rs) =
     (if freespace_blks_for_version_get env (r_slave r) (r_version r) \<ge> r_length r
      then region_destination env rs
      else let cdb = freespace_slave_block_get env (r_slave r) (r_version r)
           in if DISK_BLK_INVAL cdb then region_destination env rs else cdb)"

definition castle_transfer_get_destination ::
  "transfer_env \<Rightarrow> castle_transfer \<Rightarrow> fault + c_disk_blk" where
  "castle_transfer_get_destination env tr =
     (case t_direction tr of
        CASTLE_TRANSFER_TO_TARGET \<Rightarrow> Inr (freespace_block_get env (t_version tr))
      | CASTLE_TRANSFER_TO_REGION \<Rightarrow> Inr (region_destination env (t_regions tr))
      | CASTLE_TRANSFER_OTHER \<Rightarrow> Inl BUG)"

text \<open>\<^verbatim>\<open>castle_do_transfer_callback(src, uptodate)\<close>. The destination page is read from
  the private link of the source page, which \<^verbatim>\<open>castle_move_block\<close> always sets first.\<close>

definition castle_do_transfer_callback ::
  "c_disk_blk \<Rightarrow> bool \<Rightarrow> transfer_state \<Rightarrow> fault + transfer_state" where
  "castle_do_transfer_callback src uptodate s =
     (case c2p_private s src of
        None \<Rightarrow> Inl OOB
      | Some dest \<Rightarrow>
          if \<not> uptodate then Inr (castle_ftree_iter_cancel (- EIO) s)
          else
            let s1 = s\<lparr>c2p_buffer := (c2p_buffer s)(dest := c2p_buffer s src)\<rparr>;
                s2 = dirty_c2p dest s1;
                s3 = put_c2p src (unlock_c2p src s2);
                s4 = put_c2p dest (unlock_c2p dest s3);
                s5 = castle_freespace_block_free src s4;
                s6 = s5\<lparr>progress := progress s5 + 1\<rparr>;
                s7 = s6\<lparr>phase := phase s6 - 1\<rparr>
            in Inr (if phase s7 = 0 then castle_ftree_iter_continue s7 else s7))"

text \<open>\<^verbatim>\<open>castle_move_block(transfer, cdb)\<close>. A read submitted for the source page
  completes by calling the callback with the outcome the environment gives.\<close>

definition castle_move_block ::
  "transfer_env \<Rightarrow> castle_transfer \<Rightarrow> c_disk_blk \<Rightarrow> transfer_state \<Rightarrow> fault + transfer_state" where
  "castle_move_block env tr cdb s =
     (case castle_transfer_is_block_on_correct_disk env tr cdb of
        Inl f \<Rightarrow> Inl f
      | Inr True \<Rightarrow> Inr (s\<lparr>progress := progress s + 1\<rparr>)
      | Inr False \<Rightarrow>
          let s1 = lock_c2p cdb (castle_cache_page_get cdb s) in
          (case castle_transfer_get_destination env tr of
             Inl f \<Rightarrow> Inl f
           | Inr dest_db \<Rightarrow>
               if DISK_BLK_INVAL dest_db
               then Inr (castle_ftree_iter_cancel (- ENOMEM) (put_c2p cdb (unlock_c2p cdb s1)))
               else
                 let s2 = lock_c2p dest_db (castle_cache_page_get dest_db s1);
                     s3 = s2\<lparr>c2p_private := (c2p_private s2)(cdb := Some dest_db)\<rparr>;
                     s4 = s3\<lparr>phase := phase s3 + 1\<rparr>
                 in if \<not> c2p_uptodate s4 cdb
                    then castle_do_transfer_callback cdb (read_completes_uptodate env cdb) s4
                    else castle_do_transfer_callback cdb True s4))"

text \<open>\<^verbatim>\<open>castle_transfer_node_start\<close> and \<^verbatim>\<open>castle_transfer_node_end\<close>.\<close>

definition castle_transfer_node_start :: "transfer_state \<Rightarrow> fault + transfer_state" where
  "castle_transfer_node_start s =
     (if phase s \<noteq> 0 then Inl BUG else Inr (s\<lparr>phase := phase s + 1\<rparr>))"

definition castle_transfer_node_end :: "transfer_state \<Rightarrow> transfer_state" where
  "castle_transfer_node_end s =
     (let s1 = s\<lparr>phase := phase s - 1\<rparr>
      in if phase s1 = 0 then castle_ftree_iter_continue s1 else s1)"

text \<open>A transfer to the target slaves, a cache with nothing pinned, and two
  environments: one whose allocator has no block left, one whose read of the source
  page fails.\<close>

definition transfer0 :: castle_transfer where
  "transfer0 = \<lparr>t_id = 0, t_version = 1, t_direction = CASTLE_TRANSFER_TO_TARGET, t_regions = []\<rparr>"

definition tstate0 :: transfer_state where
  "tstate0 = \<lparr>phase = 1, progress = 0, c2p_count = (\<lambda>_. 0), c2p_locked = (\<lambda>_. False),
     c2p_uptodate = (\<lambda>_. False), c2p_dirty = (\<lambda>_. False), c2p_private = (\<lambda>_. None),
     c2p_buffer = (\<lambda>_. []), iter_cancelled = [], iter_continued = 0, freed = []\<rparr>"

definition env_no_block :: transfer_env where
  "env_no_block = \<lparr>slave_is_target = (\<lambda>_. False), freespace_block_get = (\<lambda>_. INVAL_DISK_BLK),
     freespace_blks_for_version_get = (\<lambda>_ _. 0), freespace_slave_block_get = (\<lambda>_ _. INVAL_DISK_BLK),
     read_completes_uptodate = (\<lambda>_. True)\<rparr>"

definition env_read_fails :: transfer_env where
  "env_read_fails = \<lparr>slave_is_target = (\<lambda>_. False),
     freespace_block_get = (\<lambda>_. \<lparr>disk = 2, block = 9\<rparr>),
     freespace_blks_for_version_get = (\<lambda>_ _. 0), freespace_slave_block_get = (\<lambda>_ _. INVAL_DISK_BLK),
     read_completes_uptodate = (\<lambda>_. False)\<rparr>"

definition src0 :: c_disk_blk where
  "src0 = \<lparr>disk = 1, block = 7\<rparr>"

definition dest0 :: c_disk_blk where
  "dest0 = \<lparr>disk = 2, block = 9\<rparr>"

subsection \<open>Results on the transfer engine\<close>

lemmas transfer_simps =
  castle_move_block_def castle_do_transfer_callback_def castle_transfer_is_block_on_correct_disk_def
  castle_transfer_get_destination_def castle_cache_page_get_def put_c2p_def lock_c2p_def
  unlock_c2p_def dirty_c2p_def castle_ftree_iter_cancel_def castle_ftree_iter_continue_def
  castle_freespace_block_free_def DISK_BLK_INVAL_def INVAL_DISK_BLK_def

text \<open>When the move runs to the end (a valid destination other than the source, and the
  source page up to date or read successfully), the reference counts are what they were
  before and neither page is left locked.\<close>

lemma castle_move_block_balanced_on_success:
  "castle_transfer_is_block_on_correct_disk env tr cdb = Inr False \<Longrightarrow>
   castle_transfer_get_destination env tr = Inr d \<Longrightarrow> \<not> DISK_BLK_INVAL d \<Longrightarrow> d \<noteq> cdb \<Longrightarrow>
   c2p_uptodate s cdb \<or> read_completes_uptodate env cdb \<Longrightarrow>
   \<exists>s'. castle_move_block env tr cdb s = Inr s' \<and> c2p_count s' = c2p_count s \<and>
        \<not> c2p_locked s' cdb \<and> \<not> c2p_locked s' d"
  by (auto simp add: castle_move_block_def castle_do_transfer_callback_def Let_def
      castle_cache_page_get_def put_c2p_def lock_c2p_def unlock_c2p_def dirty_c2p_def
      castle_ftree_iter_continue_def castle_freespace_block_free_def
      castle_ftree_iter_cancel_def DISK_BLK_INVAL_def fun_eq_iff)

text \<open>Claim C7, as the code has it: when the block is not on the destination set and
  the allocator returns the INVALID sentinel, \<^verbatim>\<open>castle_move_block\<close> cancels the tree
  iterator with \<^verbatim>\<open>-ENOMEM\<close> (the out-of-memory errno); when the destination is valid,
  the source page is not up to date and its read fails, the callback cancels the
  iterator with \<^verbatim>\<open>-EIO\<close>.\<close>

theorem castle_move_block_cancel_codes:
  "(castle_transfer_is_block_on_correct_disk env tr cdb = Inr False \<longrightarrow>
    castle_transfer_get_destination env tr = Inr INVAL_DISK_BLK \<longrightarrow>
      (\<exists>s'. castle_move_block env tr cdb s = Inr s' \<and>
            iter_cancelled s' = iter_cancelled s @ [- ENOMEM])) \<and>
   (castle_transfer_is_block_on_correct_disk env tr cdb = Inr False \<longrightarrow>
    castle_transfer_get_destination env tr = Inr d \<longrightarrow> \<not> DISK_BLK_INVAL d \<longrightarrow>
    \<not> c2p_uptodate s cdb \<longrightarrow> \<not> read_completes_uptodate env cdb \<longrightarrow>
      (\<exists>s'. castle_move_block env tr cdb s = Inr s' \<and>
            iter_cancelled s' = iter_cancelled s @ [- EIO]))"
  by (simp add: castle_move_block_def castle_do_transfer_callback_def Let_def
      castle_cache_page_get_def put_c2p_def lock_c2p_def unlock_c2p_def
      castle_ftree_iter_cancel_def DISK_BLK_INVAL_def)

theorem castle_move_block_cancel_codes_witness:
  "castle_transfer_is_block_on_correct_disk env_no_block transfer0 src0 = Inr False \<and>
   castle_transfer_get_destination env_no_block transfer0 = Inr INVAL_DISK_BLK \<and>
   (\<exists>s'. castle_move_block env_no_block transfer0 src0 tstate0 = Inr s' \<and>
         iter_cancelled s' = [- ENOMEM]) \<and>
   castle_transfer_is_block_on_correct_disk env_read_fails transfer0 src0 = Inr False \<and>
   castle_transfer_get_destination env_read_fails transfer0 = Inr dest0 \<and>
   \<not> DISK_BLK_INVAL dest0 \<and> \<not> c2p_uptodate tstate0 src0 \<and>
   \<not> read_completes_uptodate env_read_fails src0 \<and>
   (\<exists>s'. castle_move_block env_read_fails transfer0 src0 tstate0 = Inr s' \<and>
         iter_cancelled s' = [- EIO])"
proof -
  have a: "castle_transfer_is_block_on_correct_disk env_no_block transfer0 src0 = Inr False"
    by (simp add: castle_transfer_is_block_on_correct_disk_def transfer0_def env_no_block_def)
  have b: "castle_transfer_get_destination env_no_block transfer0 = Inr INVAL_DISK_BLK"
    by (simp add: castle_transfer_get_destination_def transfer0_def env_no_block_def)
  have c: "castle_transfer_is_block_on_correct_disk env_read_fails transfer0 src0 = Inr False"
    by (simp add: castle_transfer_is_block_on_correct_disk_def transfer0_def env_read_fails_def)
  have d: "castle_transfer_get_destination env_read_fails transfer0 = Inr dest0"
    by (simp add: castle_transfer_get_destination_def transfer0_def env_read_fails_def dest0_def)
  have e: "\<not> DISK_BLK_INVAL dest0"
    by (simp add: DISK_BLK_INVAL_def INVAL_DISK_BLK_def dest0_def)
  have f: "\<not> c2p_uptodate tstate0 src0" "iter_cancelled tstate0 = []"
    by (simp_all add: tstate0_def)
  have g: "\<not> read_completes_uptodate env_read_fails src0"
    by (simp add: env_read_fails_def)
  from castle_move_block_cancel_codes
         [where env = env_no_block and tr = transfer0 and cdb = src0 and s = tstate0] a b f
  have 1: "\<exists>s'. castle_move_block env_no_block transfer0 src0 tstate0 = Inr s' \<and>
         iter_cancelled s' = [- ENOMEM]" by simp
  from castle_move_block_cancel_codes
         [where env = env_read_fails and tr = transfer0 and cdb = src0 and s = tstate0
            and d = dest0] c d e f g
  have 2: "\<exists>s'. castle_move_block env_read_fails transfer0 src0 tstate0 = Inr s' \<and>
         iter_cancelled s' = [- EIO]" by simp
  from a b c d e f g 1 2 show ?thesis by simp
qed

text \<open>Claim C7 as stated fails: with no block left, the iterator is cancelled with
  \<^verbatim>\<open>-ENOMEM\<close>, whose kind is NoMemory and not NoSpace.\<close>

theorem castle_move_block_nospace_counterexample:
  "\<exists>s'. castle_move_block env_no_block transfer0 src0 tstate0 = Inr s' \<and>
        map errno_kind (iter_cancelled s') = [Some NoMemory] \<and>
        Some NoMemory \<noteq> Some NoSpace"
  by (simp add: transfer_simps transfer0_def env_no_block_def tstate0_def src0_def
      errno_kind_def errno_defs Let_def)

text \<open>Claim C8 at the path where the read of the source page fails: the callback
  cancels the iterator with \<^verbatim>\<open>-EIO\<close> and returns at once, so the source and the
  destination page both stay locked and referenced, and the phase counter keeps the
  increment of this move.\<close>

theorem castle_move_block_read_error_keeps_pins:
  "\<exists>s'. castle_move_block env_read_fails transfer0 src0 tstate0 = Inr s' \<and>
        iter_cancelled s' = [- EIO] \<and>
        c2p_locked s' src0 \<and> c2p_count s' src0 = 1 \<and>
        c2p_locked s' dest0 \<and> c2p_count s' dest0 = 1 \<and> phase s' = 2"
  by (simp add: transfer_simps transfer0_def env_read_fails_def tstate0_def src0_def dest0_def
      Let_def)

section \<open>Mounting the filesystem (castle\_main.c)\<close>













subsection \<open>Results on mounting\<close>






section \<open>Streaming an out-of-line value (castle\_objects.c)\<close>

text \<open>\<^verbatim>\<open>C_BLK_SIZE\<close> is declared in castle.h, which is not among the sources; the source
  calls \<^verbatim>\<open>C_BLK_SIZE * 256\<close> a 1MB buffer, so a block is 4096 bytes.\<close>

definition C_BLK_SIZE :: u32 where "C_BLK_SIZE = 4096"

definition OBJ_IO_MAX_BUFFER_SIZE :: u32 where "OBJ_IO_MAX_BUFFER_SIZE = 10"

text \<open>A cache buffer: the address of its first block and its number of blocks.\<close>

record c2_block =
  c2b_cdb :: c_disk_blk
  nr_pages :: u32

text \<open>The fields a replace call keeps between packets, with the buffers acquired from
  the cache and the buffers released (dirtied, unlocked and put), both in order.\<close>

record replace_call =
  data_c2b :: c2_block
  data_c2b_offset :: u32
  data_length :: u32
  acquired :: "c2_block list"
  released :: "c2_block list"

definition buffer_blocks :: "u32 \<Rightarrow> u32" where
  "buffer_blocks data_len =
     (let data_c2b_length =
            (if data_len > OBJ_IO_MAX_BUFFER_SIZE * C_BLK_SIZE
             then OBJ_IO_MAX_BUFFER_SIZE * C_BLK_SIZE else data_len)
      in (data_c2b_length - 1) div C_BLK_SIZE + 1)"

definition castle_object_write_next_cdb :: "c_disk_blk \<Rightarrow> u32 \<Rightarrow> c_disk_blk" where
  "castle_object_write_next_cdb old_cdb data_len =
     (let nr_blocks = buffer_blocks data_len
      in \<lparr>disk = disk old_cdb, block = block old_cdb + nr_blocks\<rparr>)"

definition castle_object_write_buffer_alloc :: "c_disk_blk \<Rightarrow> u32 \<Rightarrow> c2_block" where
  "castle_object_write_buffer_alloc new_data_cdb data_len =
     \<lparr>c2b_cdb = new_data_cdb, nr_pages = buffer_blocks data_len\<rparr>"

text \<open>The \<^verbatim>\<open>do ... while\<close> loop of \<^verbatim>\<open>castle_object_data_write\<close>. The assertion on the
  packet length stands before the loop in the source; inside the loop the packet length
  is positive by the loop condition, so testing it at each round changes nothing.\<close>

function data_write_loop ::
  "c2_block \<Rightarrow> u32 \<Rightarrow> u32 \<Rightarrow> u32 \<Rightarrow> u32 \<Rightarrow> c2_block list \<Rightarrow> c2_block list \<Rightarrow> fault + replace_call" where
  "data_write_loop c2b off c2b_length dlen plen acq rel =
     (if plen = 0 then Inl BUG
      else if off \<ge> c2b_length then Inl BUG
      else
        let copy0 = (if c2b_length - off \<ge> plen then plen else c2b_length - off);
            last_copy = (copy0 \<ge> dlen);
            copy_length = (if last_copy then dlen else copy0);
            dlen' = dlen - copy_length;
            off' = off + copy_length;
            pulled = (if last_copy
                      then copy_length + (if copy_length mod 4 = 0 then 0 else 4 - copy_length mod 4)
                      else copy_length);
            plen' = plen - pulled
        in if off' = c2b_length \<and> dlen' > 0
           then
             let new_data_cdb = castle_object_write_next_cdb (c2b_cdb c2b) dlen';
                 new_data_c2b = castle_object_write_buffer_alloc new_data_cdb dlen'
             in if plen' > 0 \<and> dlen' > 0
                then data_write_loop new_data_c2b 0 (nr_pages new_data_c2b * C_BLK_SIZE) dlen' plen'
                       (acq @ [new_data_c2b]) (rel @ [c2b])
                else Inr \<lparr>data_c2b = new_data_c2b, data_c2b_offset = 0, data_length = dlen',
                       acquired = acq @ [new_data_c2b], released = rel @ [c2b]\<rparr>
           else
             if plen' > 0 \<and> dlen' > 0
             then data_write_loop c2b off' c2b_length dlen' plen' acq rel
             else Inr \<lparr>data_c2b = c2b, data_c2b_offset = off', data_length = dlen',
                    acquired = acq, released = rel\<rparr>)"
  by pat_completeness auto
termination
  by (relation "measure (\<lambda>(c2b, off, c2b_length, dlen, plen, acq, rel). unat dlen)")
    (auto simp add: word_less_nat_alt word_le_nat_alt unat_sub not_le not_less unat_gt_0
      split: if_splits)

text \<open>\<^verbatim>\<open>castle_object_data_write(call)\<close> for a packet of the given length: the result is
  the return value (the payload is complete) and the call's fields as they are set back.\<close>

definition castle_object_data_write :: "u32 \<Rightarrow> replace_call \<Rightarrow> fault + bool \<times> replace_call" where
  "castle_object_data_write packet_length call =
     (case data_write_loop (data_c2b call) (data_c2b_offset call)
             (nr_pages (data_c2b call) * C_BLK_SIZE) (data_length call) packet_length
             (acquired call) (released call) of
        Inl f \<Rightarrow> Inl f
      | Inr call' \<Rightarrow> Inr (data_length call' = 0, call'))"

text \<open>The ONDISK branch of \<^verbatim>\<open>castle_object_replace_complete\<close>, for a value of the given
  length stored from block \<^verbatim>\<open>cdb\<close> on, with the first packet. When the write is complete
  the buffer released is the local \<^verbatim>\<open>c2b\<close>, the first buffer.\<close>

definition castle_object_replace_complete :: "c_disk_blk \<Rightarrow> u32 \<Rightarrow> u32 \<Rightarrow> fault + bool \<times> replace_call" where
  "castle_object_replace_complete cdb len packet_length =
     (let c2b = castle_object_write_buffer_alloc cdb len;
          call = \<lparr>data_c2b = c2b, data_c2b_offset = 0, data_length = len,
                   acquired = [c2b], released = []\<rparr>
      in case castle_object_data_write packet_length call of
           Inl f \<Rightarrow> Inl f
         | Inr (complete_write, call') \<Rightarrow>
             if complete_write then Inr (True, call'\<lparr>released := released call' @ [c2b]\<rparr>)
             else Inr (False, call'))"

definition castle_object_replace_continue :: "u32 \<Rightarrow> bool \<Rightarrow> replace_call \<Rightarrow> fault + replace_call" where
  "castle_object_replace_continue packet_length is_last call =
     (case castle_object_data_write packet_length call of
        Inl f \<Rightarrow> Inl f
      | Inr (copy_end, call') \<Rightarrow>
          if is_last then
            if data_length call' \<noteq> 0 then Inl BUG
            else Inr (call'\<lparr>released := released call' @ [data_c2b call']\<rparr>)
          else Inr call')"

text \<open>A whole replace: the first packet goes through \<^verbatim>\<open>castle_object_replace_complete\<close>,
  every later one through \<^verbatim>\<open>castle_object_replace_continue\<close>, the last of them flagged.\<close>

fun replace_continue_all :: "u32 list \<Rightarrow> replace_call \<Rightarrow> fault + replace_call" where
  "replace_continue_all [] call = Inr call"
| "replace_continue_all (p # ps) call =
     (case castle_object_replace_continue p (ps = []) call of
        Inl f \<Rightarrow> Inl f
      | Inr call' \<Rightarrow> replace_continue_all ps call')"

definition replace_ondisk :: "c_disk_blk \<Rightarrow> u32 \<Rightarrow> u32 list \<Rightarrow> fault + replace_call" where
  "replace_ondisk cdb len packets =
     (case packets of
        [] \<Rightarrow> Inl BUG
      | p # ps \<Rightarrow>
          (case castle_object_replace_complete cdb len p of
             Inl f \<Rightarrow> Inl f
           | Inr (complete_write, call) \<Rightarrow>
               if complete_write then Inr call else replace_continue_all ps call))"

text \<open>The buffers \<^verbatim>\<open>castle_object_get_continue\<close> and \<^verbatim>\<open>__castle_object_get_complete\<close>
  pin in turn when every read completes up to date.\<close>

function get_windows :: "c_disk_blk \<Rightarrow> u32 \<Rightarrow> fault + c2_block list" where
  "get_windows data_cdb data_len =
     (let nr_blocks0 = (data_len - 1) div C_BLK_SIZE + 1;
          nr_blocks = (if nr_blocks0 > OBJ_IO_MAX_BUFFER_SIZE then OBJ_IO_MAX_BUFFER_SIZE else nr_blocks0);
          data_c2b_length = (if nr_blocks0 > OBJ_IO_MAX_BUFFER_SIZE then nr_blocks * C_BLK_SIZE else data_len);
          data_len' = data_len - data_c2b_length;
          c2b = \<lparr>c2b_cdb = data_cdb, nr_pages = nr_blocks\<rparr>
      in if data_len' = 0 then Inr [c2b]
         else if data_c2b_length \<noteq> OBJ_IO_MAX_BUFFER_SIZE * C_BLK_SIZE then Inl BUG
         else
           (case get_windows \<lparr>disk = disk data_cdb, block = block data_cdb + OBJ_IO_MAX_BUFFER_SIZE\<rparr>
                   data_len' of
              Inl f \<Rightarrow> Inl f
            | Inr ws \<Rightarrow> Inr (c2b # ws)))"
  by pat_completeness auto
termination
proof (relation "measure (\<lambda>(data_cdb, data_len). if data_len = 0 then 2 ^ 32 else unat data_len)")
  show "wf (measure (\<lambda>(data_cdb :: c_disk_blk, data_len :: u32).
              if data_len = 0 then 2 ^ 32 else unat data_len))"
    by simp
next
  fix data_cdb :: c_disk_blk and data_len nr_blocks0 nr_blocks data_c2b_length data_len' :: u32
    and c2b :: c2_block
  assume a: "nr_blocks0 = (data_len - 1) div C_BLK_SIZE + 1"
    "nr_blocks = (if nr_blocks0 > OBJ_IO_MAX_BUFFER_SIZE then OBJ_IO_MAX_BUFFER_SIZE else nr_blocks0)"
    "data_c2b_length = (if nr_blocks0 > OBJ_IO_MAX_BUFFER_SIZE then nr_blocks * C_BLK_SIZE else data_len)"
    "data_len' = data_len - data_c2b_length" "data_len' \<noteq> 0"
    "\<not> data_c2b_length \<noteq> OBJ_IO_MAX_BUFFER_SIZE * C_BLK_SIZE"
  have lt: "unat data_len' < 2 ^ 32"
    using unsigned_less [of data_len'] by simp
  show "((\<lparr>disk = disk data_cdb, block = block data_cdb + OBJ_IO_MAX_BUFFER_SIZE\<rparr>, data_len'),
         data_cdb, data_len)
        \<in> measure (\<lambda>(data_cdb, data_len). if data_len = 0 then 2 ^ 32 else unat data_len)"
  proof (cases "data_len = 0")
    case True
    with a lt show ?thesis by simp
  next
    case False
    from a have c: "data_c2b_length = 40960"
      by (simp add: C_BLK_SIZE_def OBJ_IO_MAX_BUFFER_SIZE_def)
    have "40960 < data_len"
    proof (cases "nr_blocks0 > OBJ_IO_MAX_BUFFER_SIZE")
      case True
      have "unat (data_len - 1) div 4096 \<ge> 10"
      proof (rule ccontr)
        assume "\<not> unat (data_len - 1) div 4096 \<ge> 10"
        then have "unat (data_len - 1) div 4096 < 10" by simp
        then have "unat ((data_len - 1) div 4096 + 1) \<le> 10"
          by (simp add: unat_word_ariths unat_div)
        with True a show False
          by (simp add: C_BLK_SIZE_def OBJ_IO_MAX_BUFFER_SIZE_def word_less_nat_alt)
      qed
      then have "unat (data_len - 1) \<ge> 40960" by simp
      moreover from False have "unat (data_len - 1) = unat data_len - 1"
        by (simp add: unat_minus_one)
      ultimately have "unat data_len > 40960" by simp
      then show ?thesis by (simp add: word_less_nat_alt)
    next
      case False
      with a c have "data_len = 40960" by simp
      with a c show ?thesis by simp
    qed
    with a c False show ?thesis
      by (simp add: word_less_nat_alt unat_sub word_le_nat_alt)
  qed
qed

definition cdb_at :: "u32 \<Rightarrow> c_disk_blk" where
  "cdb_at b = \<lparr>disk = 1, block = b\<rparr>"

definition window :: "u32 \<Rightarrow> u32 \<Rightarrow> c2_block" where
  "window b n = \<lparr>c2b_cdb = cdb_at b, nr_pages = n\<rparr>"

lemmas stream_defs =
  castle_object_data_write_def castle_object_replace_complete_def
  castle_object_replace_continue_def replace_ondisk_def castle_object_write_buffer_alloc_def
  castle_object_write_next_cdb_def buffer_blocks_def C_BLK_SIZE_def OBJ_IO_MAX_BUFFER_SIZE_def
  cdb_at_def window_def


subsection \<open>Results on streaming\<close>

text \<open>The block index of the next window is the index of the current one plus the number
  of blocks of the \<^emph>\<open>next\<close> window (computed from the payload still to come), not of the
  current one.\<close>

lemma castle_object_write_next_cdb_block:
  "block (castle_object_write_next_cdb old_cdb data_len) =
     block old_cdb + nr_pages (castle_object_write_buffer_alloc new_cdb data_len)"
  by (simp add: castle_object_write_next_cdb_def castle_object_write_buffer_alloc_def)

text \<open>A value of 70 blocks, sent in packets of one block each: seven windows of ten blocks,
  each starting where the one before ends, and a get pins the same seven windows.\<close>

lemma replace_ondisk_70_blocks:
  "replace_ondisk (cdb_at 100) (70 * C_BLK_SIZE) (replicate 70 C_BLK_SIZE) =
     Inr \<lparr>data_c2b = window 160 10, data_c2b_offset = 40960, data_length = 0,
          acquired = [window 100 10, window 110 10, window 120 10, window 130 10, window 140 10,
                      window 150 10, window 160 10],
          released = [window 100 10, window 110 10, window 120 10, window 130 10, window 140 10,
                      window 150 10, window 160 10]\<rparr>"
  by code_simp

lemma get_windows_70_blocks:
  "get_windows (cdb_at 100) (70 * C_BLK_SIZE) =
     Inr [window 100 10, window 110 10, window 120 10, window 130 10, window 140 10,
          window 150 10, window 160 10]"
  by code_simp

text \<open>Claim C2 at a value of 15 blocks stored from block 100 on, sent in packets of one
  block each. The first window holds blocks 100 to 109. When it is full, five blocks
  remain, and the next window is acquired at block 105, inside the first window, where the
  claim has it at block 110; a get of the same value pins blocks 100 to 109 and then
  110 to 114.\<close>

theorem replace_ondisk_15_blocks_second_window:
  "replace_ondisk (cdb_at 100) (15 * C_BLK_SIZE) (replicate 15 C_BLK_SIZE) =
     Inr \<lparr>data_c2b = window 105 5, data_c2b_offset = 20480, data_length = 0,
          acquired = [window 100 10, window 105 5],
          released = [window 100 10, window 105 5]\<rparr> \<and>
   castle_object_write_next_cdb (cdb_at 100) (5 * C_BLK_SIZE) = cdb_at 105 \<and>
   get_windows (cdb_at 100) (15 * C_BLK_SIZE) = Inr [window 100 10, window 110 5]"
  by code_simp

section \<open>Key codec (castle\_objects.c)\<close>

text \<open>An object key (\<^verbatim>\<open>c_vl_okey_t\<close>) is a sequence of dimensions
  (\<^verbatim>\<open>c_vl_key_t\<close>), each a length and that many bytes: the list of its bytes, whose
  length is the length field. The number of dimensions is the length of the sequence.\<close>

type_synonym c_vl_key = "u8 list"
type_synonym c_vl_okey = "c_vl_key list"

text \<open>A B-tree key (\<^verbatim>\<open>c_vl_bkey_t\<close>) is one block of memory: the length field (the
  size of the block less the four bytes of the field itself), the number of dimensions,
  eight unused bytes, the array of dimension heads, and the bytes of the dimensions.
  The record keeps the two fields, the array of heads and, as \<open>payload\<close>, the bytes that
  follow the array.\<close>

record c_vl_bkey =
  length_b :: u32
  nr_dims :: u32
  dim_head :: "u32 list"
  payload :: "u8 list"

text \<open>Modelled from the spec: castle\_public.h is not among the sources; the
  specification gives the size of the fixed part of the header as 16 bytes
  (\<open>H = 16 + 4N\<close>).\<close>

definition sizeof_c_vl_bkey_t :: nat where
  "sizeof_c_vl_bkey_t = 16"

definition KEY_DIMENSION_NEXT_FLAG :: u32 where
  "KEY_DIMENSION_NEXT_FLAG = 1"

definition KEY_DIMENSION_FLAGS_SHIFT :: nat where
  "KEY_DIMENSION_FLAGS_SHIFT = 8"

definition KEY_DIMENSION_FLAGS_MASK :: u32 where
  "KEY_DIMENSION_FLAGS_MASK = push_bit KEY_DIMENSION_FLAGS_SHIFT 1 - 1"

definition KEY_DIMENSION_FLAGS :: "u32 \<Rightarrow> u32" where
  "KEY_DIMENSION_FLAGS h = h AND KEY_DIMENSION_FLAGS_MASK"

definition KEY_DIMENSION_OFFSET :: "u32 \<Rightarrow> u32" where
  "KEY_DIMENSION_OFFSET h = drop_bit KEY_DIMENSION_FLAGS_SHIFT h"

definition KEY_DIMENSION_HEADER :: "u32 \<Rightarrow> u32 \<Rightarrow> u32" where
  "KEY_DIMENSION_HEADER off flags =
     push_bit KEY_DIMENSION_FLAGS_SHIFT off OR (flags AND KEY_DIMENSION_FLAGS_MASK)"

text \<open>The offset, from the start of the key, of the first byte after the array of heads.\<close>

definition payload_start :: "c_vl_bkey \<Rightarrow> nat" where
  "payload_start key = sizeof_c_vl_bkey_t + 4 * length (dim_head key)"

text \<open>Reading \<open>n\<close> bytes at offset \<open>off\<close> of the key (\<^verbatim>\<open>memcpy\<close> and \<^verbatim>\<open>memcmp\<close> from
  \<^verbatim>\<open>(char *)key + off\<close>). Reading no byte touches no memory; a read that leaves the
  bytes after the heads is outside the model.\<close>

definition key_read :: "c_vl_bkey \<Rightarrow> nat \<Rightarrow> nat \<Rightarrow> fault + u8 list" where
  "key_read key off n =
     (if n = 0 then Inr []
      else if payload_start key \<le> off \<and> off + n \<le> payload_start key + length (payload key)
      then Inr (take n (drop (off - payload_start key) (payload key)))
      else Inl OOB)"

definition head_at :: "c_vl_bkey \<Rightarrow> nat \<Rightarrow> fault + u32" where
  "head_at key dim = (if dim < length (dim_head key) then Inr (dim_head key ! dim) else Inl OOB)"

definition castle_object_btree_key_dim_length :: "c_vl_bkey \<Rightarrow> nat \<Rightarrow> fault + u32" where
  "castle_object_btree_key_dim_length key dim =
     (case head_at key dim of
        Inl f \<Rightarrow> Inl f
      | Inr h \<Rightarrow>
          if dim + 1 < unat (nr_dims key)
          then (case head_at key (dim + 1) of
                  Inl f \<Rightarrow> Inl f
                | Inr h' \<Rightarrow> Inr (KEY_DIMENSION_OFFSET h' - KEY_DIMENSION_OFFSET h))
          else Inr (length_b key + 4 - KEY_DIMENSION_OFFSET h))"

text \<open>The bytes of a dimension: \<^verbatim>\<open>castle_object_btree_key_dim_get\<close> gives the address,
  \<^verbatim>\<open>castle_object_btree_key_dim_length\<close> the number of bytes its callers read there.\<close>

definition castle_object_btree_key_dim_get :: "c_vl_bkey \<Rightarrow> nat \<Rightarrow> fault + u8 list" where
  "castle_object_btree_key_dim_get key dim =
     (case castle_object_btree_key_dim_length key dim of
        Inl f \<Rightarrow> Inl f
      | Inr dim_len \<Rightarrow>
          (case head_at key dim of
             Inl f \<Rightarrow> Inl f
           | Inr h \<Rightarrow> key_read key (unat (KEY_DIMENSION_OFFSET h)) (unat dim_len)))"

definition castle_object_btree_key_dim_flags_get :: "c_vl_bkey \<Rightarrow> nat \<Rightarrow> fault + u32" where
  "castle_object_btree_key_dim_flags_get key dim =
     (case head_at key dim of Inl f \<Rightarrow> Inl f | Inr h \<Rightarrow> Inr (KEY_DIMENSION_FLAGS h))"

text \<open>The second loop of \<^verbatim>\<open>castle_object_btree_key_construct\<close>: the heads written for
  the dimensions taken from the object key, from the running payload offset on.\<close>

fun construct_heads :: "u32 \<Rightarrow> c_vl_key list \<Rightarrow> u32 list" where
  "construct_heads payload_offset [] = []"
| "construct_heads payload_offset (d # ds) =
     KEY_DIMENSION_HEADER payload_offset 0 # construct_heads (payload_offset + of_nat (length d)) ds"

text \<open>\<^verbatim>\<open>castle_object_btree_key_construct(src_bkey, src_okey, okey_first_dim)\<close>, with
  \<open>None\<close> for a NULL \<^verbatim>\<open>src_bkey\<close>. The allocation is taken to succeed. The key length is
  computed in 32 bits; if the true size does not fit, the copies run past the block
  allocated, which is outside the model. A first offset inside the header of the source
  key would copy a part of the header only and is outside the model as well.\<close>

definition castle_object_btree_key_construct ::
  "c_vl_bkey option \<Rightarrow> c_vl_okey \<Rightarrow> nat \<Rightarrow> fault + c_vl_bkey" where
  "castle_object_btree_key_construct src_bkey src_okey okey_first_dim =
     (if okey_first_dim > 0 \<and> src_bkey = None then Inl BUG
      else if okey_first_dim = 0 \<and> src_bkey \<noteq> None then Inl BUG
      else if (case src_bkey of None \<Rightarrow> False | Some k \<Rightarrow> unat (nr_dims k) \<noteq> length src_okey)
      then Inl BUG
      else if okey_first_dim \<ge> length src_okey then Inl BUG
      else
        let nr = length src_okey;
            dims = drop okey_first_dim src_okey
        in case src_bkey of
             None \<Rightarrow>
               let first = sizeof_c_vl_bkey_t + 4 * nr;
                   key_len = first + length (concat dims)
               in if key_len \<ge> 2 ^ 32 then Inl OOB
                  else Inr \<lparr>length_b = of_nat key_len - 4, nr_dims = of_nat nr,
                         dim_head = construct_heads (of_nat first) dims,
                         payload = concat dims\<rparr>
           | Some k \<Rightarrow>
               (case head_at k okey_first_dim of
                  Inl f \<Rightarrow> Inl f
                | Inr h \<Rightarrow>
                    let first = unat (KEY_DIMENSION_OFFSET h);
                        key_len = first + length (concat dims)
                    in if key_len \<ge> 2 ^ 32 then Inl OOB
                       else if length (dim_head k) \<noteq> nr \<or> first < payload_start k
                               \<or> first > payload_start k + length (payload k) then Inl OOB
                       else Inr \<lparr>length_b = of_nat key_len - 4, nr_dims = of_nat nr,
                              dim_head = take okey_first_dim (dim_head k)
                                           @ construct_heads (of_nat first) dims,
                              payload = take (first - payload_start k) (payload k) @ concat dims\<rparr>))"

definition castle_object_key_convert :: "c_vl_okey \<Rightarrow> fault + c_vl_bkey" where
  "castle_object_key_convert obj_key = castle_object_btree_key_construct None obj_key 0"

text \<open>The loop of \<^verbatim>\<open>castle_object_btree_key_convert\<close> over the dimensions from \<open>i\<close> on.\<close>

fun convert_dims :: "c_vl_bkey \<Rightarrow> nat list \<Rightarrow> fault + c_vl_okey" where
  "convert_dims key [] = Inr []"
| "convert_dims key (i # is) =
     (case castle_object_btree_key_dim_get key i of
        Inl f \<Rightarrow> Inl f
      | Inr dim \<Rightarrow>
          (case convert_dims key is of Inl f \<Rightarrow> Inl f | Inr ds \<Rightarrow> Inr (dim # ds)))"

definition castle_object_btree_key_convert :: "c_vl_bkey \<Rightarrow> fault + c_vl_okey" where
  "castle_object_btree_key_convert btree_key = convert_dims btree_key [0 ..< unat (nr_dims btree_key)]"

text \<open>\<^verbatim>\<open>memcmp\<close> over the common length of two byte strings, as in lib/string.c: the
  difference of the first two bytes that differ.\<close>

fun memcmp :: "u8 list \<Rightarrow> u8 list \<Rightarrow> int" where
  "memcmp (a # as) (b # bs) = (if a \<noteq> b then uint a - uint b else memcmp as bs)"
| "memcmp _ _ = 0"

definition castle_object_key_dim_compare ::
  "u8 list \<Rightarrow> u32 \<Rightarrow> u8 list \<Rightarrow> u32 \<Rightarrow> fault + int" where
  "castle_object_key_dim_compare dim_a dim_a_flags dim_b dim_b_flags =
     (let cmp = memcmp dim_a dim_b in
      if cmp \<noteq> 0 then Inr cmp
      else if length dim_a \<noteq> length dim_b
      then Inr (if length dim_a > length dim_b then 1 else - 1)
      else
        let dim_a_next_flag = dim_a_flags AND KEY_DIMENSION_NEXT_FLAG;
            dim_b_next_flag = dim_b_flags AND KEY_DIMENSION_NEXT_FLAG
        in if dim_a_next_flag \<noteq> 0 \<and> dim_b_next_flag \<noteq> 0 then Inl BUG
           else if dim_a_next_flag \<noteq> 0 then Inr 1
           else if dim_b_next_flag \<noteq> 0 then Inr (- 1)
           else Inr 0)"

text \<open>The loop of \<^verbatim>\<open>castle_object_btree_key_compare\<close> over the dimensions.\<close>

fun compare_dims :: "c_vl_bkey \<Rightarrow> c_vl_bkey \<Rightarrow> nat list \<Rightarrow> fault + int" where
  "compare_dims key1 key2 [] = Inr 0"
| "compare_dims key1 key2 (dim # dims) =
     (case castle_object_btree_key_dim_get key1 dim of Inl f \<Rightarrow> Inl f | Inr a \<Rightarrow>
      case castle_object_btree_key_dim_flags_get key1 dim of Inl f \<Rightarrow> Inl f | Inr fa \<Rightarrow>
      case castle_object_btree_key_dim_get key2 dim of Inl f \<Rightarrow> Inl f | Inr b \<Rightarrow>
      case castle_object_btree_key_dim_flags_get key2 dim of Inl f \<Rightarrow> Inl f | Inr fb \<Rightarrow>
      case castle_object_key_dim_compare a fa b fb of
        Inl f \<Rightarrow> Inl f
      | Inr cmp \<Rightarrow> if cmp \<noteq> 0 then Inr cmp else compare_dims key1 key2 dims)"

definition castle_object_btree_key_compare :: "c_vl_bkey \<Rightarrow> c_vl_bkey \<Rightarrow> fault + int" where
  "castle_object_btree_key_compare key1 key2 =
     (if nr_dims key1 \<noteq> nr_dims key2
      then Inr (if nr_dims key1 > nr_dims key2 then 1 else - 1)
      else compare_dims key1 key2 [0 ..< unat (nr_dims key1)])"

definition castle_object_btree_key_dim_inc :: "c_vl_bkey \<Rightarrow> nat \<Rightarrow> fault + c_vl_bkey" where
  "castle_object_btree_key_dim_inc key dim =
     (case head_at key dim of
        Inl f \<Rightarrow> Inl f
      | Inr h \<Rightarrow>
          let flags = KEY_DIMENSION_FLAGS h;
              offset = KEY_DIMENSION_OFFSET h
          in Inr (key\<lparr>dim_head := (dim_head key)
                    [dim := KEY_DIMENSION_HEADER offset (flags OR KEY_DIMENSION_NEXT_FLAG)]\<rparr>))"

text \<open>\<^verbatim>\<open>castle_object_btree_key_next\<close>: a copy of the key with the last dimension
  incremented. With no dimension the index is \<open>-1\<close>, before the array of heads.\<close>

definition castle_object_btree_key_next :: "c_vl_bkey \<Rightarrow> fault + c_vl_bkey" where
  "castle_object_btree_key_next key =
     (if nr_dims key = 0 then Inl OOB
      else castle_object_btree_key_dim_inc key (unat (nr_dims key) - 1))"

text \<open>An object key that fits the schema of the B-tree key: at least one dimension, the
  offset of every dimension (the last one is the largest) below \<open>2 ^ 24\<close>, the width of the
  offset field of a dimension head, and the size of the whole key below \<open>2 ^ 32\<close>, the
  width of its length field.\<close>

definition okey_valid :: "c_vl_okey \<Rightarrow> bool" where
  "okey_valid obj_key \<longleftrightarrow>
     obj_key \<noteq> [] \<and>
     sizeof_c_vl_bkey_t + 4 * length obj_key + length (concat (butlast obj_key)) < 2 ^ 24 \<and>
     sizeof_c_vl_bkey_t + 4 * length obj_key + length (concat obj_key) < 2 ^ 32"



definition okey1 :: c_vl_okey where "okey1 = [[1], [2, 2]]"
definition okey2 :: c_vl_okey where "okey2 = [[1], [2, 3]]"

definition bkey1 :: c_vl_bkey where
  "bkey1 = \<lparr>length_b = 23, nr_dims = 2, dim_head = [6144, 6400], payload = [1, 2, 2]\<rparr>"


lemmas key_defs = castle_object_key_convert_def castle_object_btree_key_construct_def
  castle_object_btree_key_convert_def castle_object_btree_key_dim_get_def
  castle_object_btree_key_dim_length_def head_at_def key_read_def payload_start_def
  sizeof_c_vl_bkey_t_def KEY_DIMENSION_HEADER_def KEY_DIMENSION_OFFSET_def KEY_DIMENSION_FLAGS_def
  KEY_DIMENSION_FLAGS_MASK_def KEY_DIMENSION_FLAGS_SHIFT_def KEY_DIMENSION_NEXT_FLAG_def
  castle_object_btree_key_compare_def castle_object_key_dim_compare_def
  castle_object_btree_key_dim_flags_get_def castle_object_btree_key_next_def
  castle_object_btree_key_dim_inc_def

subsection \<open>Results on the key codec\<close>

lemma KEY_DIMENSION_FLAGS_MASK_mask: "KEY_DIMENSION_FLAGS_MASK = mask 8"
  by (simp add: KEY_DIMENSION_FLAGS_MASK_def KEY_DIMENSION_FLAGS_SHIFT_def mask_eq_exp_minus_1)

lemma offset_of_header:
  "KEY_DIMENSION_OFFSET (KEY_DIMENSION_HEADER x f) = take_bit 24 x"
  unfolding KEY_DIMENSION_OFFSET_def KEY_DIMENSION_HEADER_def KEY_DIMENSION_FLAGS_SHIFT_def
    KEY_DIMENSION_FLAGS_MASK_mask
  by (rule bit_word_eqI) (auto simp add: bit_simps)


lemma take_bit_24_small: "n < 2 ^ 24 \<Longrightarrow> take_bit 24 (of_nat n :: u32) = of_nat n"
  by (simp add: take_bit_of_nat take_bit_nat_eq_self)

lemma construct_heads_nth:
  "i < length ds \<Longrightarrow>
   construct_heads (of_nat off) ds ! i = KEY_DIMENSION_HEADER (of_nat (off + length (concat (take i ds)))) 0"
proof (induction ds arbitrary: off i)
  case Nil
  then show ?case by simp
next
  case (Cons d ds)
  show ?case
  proof (cases i)
    case 0
    then show ?thesis by simp
  next
    case (Suc j)
    with Cons.prems have "j < length ds" by simp
    from Cons.IH [OF this, of "off + length d"] Suc show ?thesis
      by (simp add: add.assoc)
  qed
qed

lemma length_construct_heads [simp]: "length (construct_heads off ds) = length ds"
  by (induction ds arbitrary: off) auto

lemma take_drop_concat_nth:
  "i < length xs \<Longrightarrow> take (length (xs ! i)) (drop (length (concat (take i xs))) (concat xs)) = xs ! i"
proof -
  assume "i < length xs"
  then have "xs = take i xs @ xs ! i # drop (Suc i) xs"
    by (rule id_take_nth_drop)
  then have "concat xs = concat (take i xs) @ xs ! i @ concat (drop (Suc i) xs)"
    by (metis concat.simps(2) concat_append)
  then show ?thesis by simp
qed

lemma convert_dims_map:
  "(\<And>i. i \<in> set is \<Longrightarrow> castle_object_btree_key_dim_get key i = Inr (f i)) \<Longrightarrow>
   convert_dims key is = Inr (map f is)"
  by (induction "is") auto


lemma unat_of_nat_u32: "n < 2 ^ 32 \<Longrightarrow> unat (of_nat n :: u32) = n"
  by (simp add: unat_of_nat)

lemma length_concat_take_le:
  "i < length xs \<Longrightarrow> length (concat (take i xs)) \<le> length (concat (butlast xs))"
proof -
  assume "i < length xs"
  then have "take i xs = take i (butlast xs)"
    by (simp add: take_butlast)
  moreover have "butlast xs = take i (butlast xs) @ drop i (butlast xs)" by simp
  ultimately have "concat (butlast xs) = concat (take i xs) @ concat (drop i (butlast xs))"
    by (metis concat_append)
  then show ?thesis by simp
qed

lemma length_concat_take_Suc:
  "i < length xs \<Longrightarrow> length (concat (take (Suc i) xs)) = length (concat (take i xs)) + length (xs ! i)"
  by (simp add: take_Suc_conv_app_nth)

lemma length_concat_take_le_all:
  "length (concat (take i xs)) \<le> length (concat xs)"
proof -
  have "concat xs = concat (take i xs) @ concat (drop i xs)"
    by (metis append_take_drop_id concat_append)
  then show ?thesis by simp
qed

text \<open>Claim C1. For every object key that fits the schema, encoding succeeds and decoding
  the encoded key returns the object key, dimension for dimension and byte for byte.\<close>

theorem key_convert_roundtrip:
  assumes v: "okey_valid obj_key"
  shows "\<exists>btree_key. castle_object_key_convert obj_key = Inr btree_key \<and>
           castle_object_btree_key_convert btree_key = Inr obj_key"
proof -
  define N where "N = length obj_key"
  define H where "H = sizeof_c_vl_bkey_t + 4 * N"
  define off where "off i = H + length (concat (take i obj_key))" for i
  define total where "total = H + length (concat obj_key)"
  define B where "B = \<lparr>length_b = of_nat total - 4, nr_dims = of_nat N,
             dim_head = construct_heads (of_nat H) obj_key, payload = concat obj_key\<rparr>"
  from v have ne: "obj_key \<noteq> []" and b24: "H + length (concat (butlast obj_key)) < 2 ^ 24"
    and b32: "total < 2 ^ 32"
    by (simp_all add: okey_valid_def H_def N_def total_def)
  have enc: "castle_object_key_convert obj_key = Inr B"
    using ne b32 by (simp add: castle_object_key_convert_def castle_object_btree_key_construct_def
        Let_def B_def H_def N_def total_def)
  from b32 have n32: "N < 2 ^ 32" by (simp add: total_def H_def)
  then have un: "unat (nr_dims B) = N"
    by (simp add: unat_of_nat_u32 B_def)
  have ps: "payload_start B = H"
    by (simp add: payload_start_def B_def H_def N_def)
  have pl: "payload B = concat obj_key" and lb: "length_b B = of_nat total - 4"
    by (simp_all add: B_def)
  have off24: "off i < 2 ^ 24" if "i < N" for i
    using length_concat_take_le [of i obj_key] that b24 by (simp add: off_def N_def)
  have off_Suc: "off (Suc i) = off i + length (obj_key ! i)" if "i < N" for i
    using length_concat_take_Suc [of i obj_key] that by (simp add: off_def N_def)
  have off_N: "off N = total"
    by (simp add: off_def N_def total_def)
  have off32: "off i + length (obj_key ! i) \<le> total" if "i < N" for i
    using length_concat_take_le_all [of "Suc i" obj_key] off_Suc [OF that]
    by (simp add: off_def total_def)
  have hd: "head_at B i = Inr (KEY_DIMENSION_HEADER (of_nat (off i)) 0)" if "i < N" for i
  proof -
    from that have "i < length obj_key" by (simp add: N_def)
    from construct_heads_nth [OF this, of H] that show ?thesis
      by (simp add: head_at_def B_def off_def N_def)
  qed
  have ofs: "KEY_DIMENSION_OFFSET (KEY_DIMENSION_HEADER (of_nat (off i)) 0) = of_nat (off i)"
    if "i < N" for i
    using take_bit_24_small [OF off24 [OF that]] by (simp only: offset_of_header)
  have len: "castle_object_btree_key_dim_length B i = Inr (of_nat (length (obj_key ! i)))"
    if "i < N" for i
  proof (cases "i + 1 < N")
    case True
    then have s: "Suc i < N" by simp
    with that have "castle_object_btree_key_dim_length B i =
        Inr (of_nat (off (Suc i)) - of_nat (off i))"
      by (simp add: castle_object_btree_key_dim_length_def hd ofs un)
    then show ?thesis by (simp add: off_Suc [OF that])
  next
    case False
    with that have "Suc i = N" by simp
    with off_Suc [OF that] off_N have t: "total = off i + length (obj_key ! i)" by simp
    from False that have "castle_object_btree_key_dim_length B i =
        Inr (of_nat total - 4 + 4 - of_nat (off i))"
      by (simp add: castle_object_btree_key_dim_length_def hd ofs un lb)
    then show ?thesis by (simp add: t)
  qed
  have get: "castle_object_btree_key_dim_get B i = Inr (obj_key ! i)" if "i < N" for i
  proof -
    from off32 [OF that] b32 have l32: "length (obj_key ! i) < 2 ^ 32" by simp
    from off24 [OF that] have o32: "off i < 2 ^ 32" by simp
    from that have "i < length obj_key" by (simp add: N_def)
    from take_drop_concat_nth [OF this] off32 [OF that]
    have "key_read B (off i) (length (obj_key ! i)) = Inr (obj_key ! i)"
      by (auto simp add: key_read_def ps pl off_def total_def)
    with l32 o32 that show ?thesis
      by (simp add: castle_object_btree_key_dim_get_def len hd ofs unat_of_nat_u32)
  qed
  have "convert_dims B [0 ..< N] = Inr (map (\<lambda>i. obj_key ! i) [0 ..< N])"
    by (rule convert_dims_map) (simp add: get)
  then have "castle_object_btree_key_convert B = Inr obj_key"
    by (simp add: castle_object_btree_key_convert_def un map_nth N_def)
  with enc show ?thesis by blast
qed

lemma memcmp_same [simp]: "memcmp a a = 0"
  by (induction a) auto



















theorem key_convert_roundtrip_witness:
  "okey_valid okey1 \<and>
   (\<exists>btree_key. castle_object_key_convert okey1 = Inr btree_key \<and>
      castle_object_btree_key_convert btree_key = Inr okey1)"
proof -
  have v: "okey_valid okey1"
    by (simp add: okey_valid_def okey1_def sizeof_c_vl_bkey_t_def)
  from key_convert_roundtrip [OF v] v show ?thesis by simp
qed

lemma key_convert_okey1: "castle_object_key_convert okey1 = Inr bkey1"
  by (simp add: key_defs okey1_def bkey1_def Let_def)

section \<open>Range iterator (castle\_objects.c)\<close>

text \<open>Modelled from the spec: castle.h is not among the sources. A cache value tuple is
  one of INVALID, TOMBSTONE, INLINE (the bytes) and ONDISK (the length and the address
  of the first block).\<close>

datatype c_val_tup = CVT_INVALID | CVT_TOMB_STONE | CVT_INLINE "u8 list" | CVT_ONDISK u32 c_disk_blk

text \<open>An entry of the tree as an iterator returns it: key, version and value.\<close>

record rq_entry =
  e_key :: c_vl_bkey
  e_version :: u32
  e_cvt :: c_val_tup

text \<open>The loop of \<^verbatim>\<open>castle_object_btree_key_bounds_check\<close> over the dimensions. The
  second component of the result is the offending dimension, written only when the key
  is out of bounds.\<close>

fun bounds_check_dims ::
  "c_vl_bkey \<Rightarrow> c_vl_okey \<Rightarrow> c_vl_okey \<Rightarrow> nat list \<Rightarrow> fault + int \<times> nat option" where
  "bounds_check_dims key start_key end_key [] = Inr (0, None)"
| "bounds_check_dims key start_key end_key (dim # dims) =
     (case castle_object_btree_key_dim_get key dim of Inl f \<Rightarrow> Inl f | Inr key_dim \<Rightarrow>
      case castle_object_btree_key_dim_flags_get key dim of Inl f \<Rightarrow> Inl f | Inr key_dim_flags \<Rightarrow>
      case castle_object_key_dim_compare key_dim key_dim_flags (start_key ! dim) 0 of
        Inl f \<Rightarrow> Inl f
      | Inr cmp \<Rightarrow>
          if cmp < 0 then Inr (- 1, Some dim)
          else
            (case castle_object_key_dim_compare key_dim key_dim_flags (end_key ! dim) 0 of
               Inl f \<Rightarrow> Inl f
             | Inr cmp' \<Rightarrow>
                 if cmp' > 0 then Inr (1, Some dim)
                 else bounds_check_dims key start_key end_key dims))"

definition castle_object_btree_key_bounds_check ::
  "c_vl_bkey \<Rightarrow> c_vl_okey \<Rightarrow> c_vl_okey \<Rightarrow> fault + int \<times> nat option" where
  "castle_object_btree_key_bounds_check key start_key end_key =
     (if unat (nr_dims key) \<noteq> length start_key \<or> unat (nr_dims key) \<noteq> length end_key
      then Inl BUG
      else bounds_check_dims key start_key end_key [0 ..< unat (nr_dims key)])"

text \<open>\<^verbatim>\<open>castle_object_btree_key_skip\<close>. The test \<^verbatim>\<open>if(bigger)\<close> holds for \<open>-1\<close> as
  well as for \<open>1\<close>.\<close>

definition castle_object_btree_key_skip ::
  "c_vl_bkey \<Rightarrow> c_vl_okey \<Rightarrow> nat \<Rightarrow> int \<Rightarrow> fault + c_vl_bkey" where
  "castle_object_btree_key_skip old_key start_key offending_dim bigger =
     (case castle_object_btree_key_construct (Some old_key) start_key offending_dim of
        Inl f \<Rightarrow> Inl f
      | Inr new_key \<Rightarrow>
          if bigger \<noteq> 0 then castle_object_btree_key_dim_inc new_key offending_dim
          else Inr new_key)"

text \<open>Modelled from the spec: the inner range iterator of the doubling array
  (\<^verbatim>\<open>castle_da_rq_iter\<close>, castle\_da.c) is not among the sources. It holds the entries
  it has still to return, in its order; \<open>skip\<close> fast-forwards past the entries whose key
  is below the given key.\<close>

type_synonym c_da_rq_iter = "rq_entry list"

definition key_below :: "c_vl_bkey \<Rightarrow> c_vl_bkey \<Rightarrow> bool" where
  "key_below a b = (case castle_object_btree_key_compare a b of Inl f \<Rightarrow> False | Inr c \<Rightarrow> c < 0)"

definition castle_da_rq_iter_skip :: "c_vl_bkey \<Rightarrow> c_da_rq_iter \<Rightarrow> c_da_rq_iter" where
  "castle_da_rq_iter_skip key it = dropWhile (\<lambda>e. key_below (e_key e) key) it"

text \<open>The range iterator of the object layer (\<^verbatim>\<open>c_obj_rq_iter_t\<close>).\<close>

record c_obj_rq_iter =
  start_okey :: c_vl_okey
  end_okey :: c_vl_okey
  da_rq_iter :: c_da_rq_iter
  cached :: "rq_entry option"

function castle_objects_rq_iter_has_next :: "c_obj_rq_iter \<Rightarrow> fault + bool \<times> c_obj_rq_iter" where
  "castle_objects_rq_iter_has_next iter =
     (if cached iter \<noteq> None then Inr (True, iter)
      else
        (case da_rq_iter iter of
           [] \<Rightarrow> Inr (False, iter)
         | e # rest \<Rightarrow>
             (case castle_object_btree_key_bounds_check (e_key e) (start_okey iter) (end_okey iter) of
                Inl f \<Rightarrow> Inl f
              | Inr (bigger, offending_dim) \<Rightarrow>
                  if bigger \<noteq> 0 then
                    (case offending_dim of
                       None \<Rightarrow> Inl OOB
                     | Some d \<Rightarrow>
                         (case castle_object_btree_key_skip (e_key e) (start_okey iter) d bigger of
                            Inl f \<Rightarrow> Inl f
                          | Inr next_key \<Rightarrow>
                              castle_objects_rq_iter_has_next
                                (iter\<lparr>da_rq_iter := castle_da_rq_iter_skip next_key rest\<rparr>)))
                  else
                    castle_objects_rq_iter_has_next
                      (iter\<lparr>da_rq_iter := rest, cached := Some e\<rparr>))))"
  by pat_completeness auto
termination
  by (relation "measure (\<lambda>iter. length (da_rq_iter iter))")
    (auto simp add: castle_da_rq_iter_skip_def intro: le_imp_less_Suc length_dropWhile_le)

definition castle_objects_rq_iter_next :: "c_obj_rq_iter \<Rightarrow> fault + rq_entry \<times> c_obj_rq_iter" where
  "castle_objects_rq_iter_next iter =
     (case cached iter of
        None \<Rightarrow> Inl BUG
      | Some e \<Rightarrow> Inr (e, iter\<lparr>cached := None\<rparr>))"


text \<open>What the iterator has still to give: the cached entry, then the entries of the
  inner iterator.\<close>

definition pending :: "c_obj_rq_iter \<Rightarrow> rq_entry list" where
  "pending iter = (case cached iter of None \<Rightarrow> [] | Some e \<Rightarrow> [e]) @ da_rq_iter iter"

definition in_bounds :: "c_obj_rq_iter \<Rightarrow> rq_entry \<Rightarrow> bool" where
  "in_bounds iter e \<longleftrightarrow>
     castle_object_btree_key_bounds_check (e_key e) (start_okey iter) (end_okey iter) = Inr (0, None)"

lemma bounds_check_dims_zero:
  "bounds_check_dims key s e dims = Inr (0, od) \<Longrightarrow> od = None"
  by (induction dims) (auto split: sum.splits if_splits)

lemma bounds_check_zero:
  "castle_object_btree_key_bounds_check key s e = Inr (0, od) \<Longrightarrow> od = None"
  by (auto simp add: castle_object_btree_key_bounds_check_def split: if_splits
      dest: bounds_check_dims_zero)

lemmas has_next_unfold = castle_objects_rq_iter_has_next.simps

declare castle_objects_rq_iter_has_next.simps [simp del]

lemma has_next_cached:
  "cached iter \<noteq> None \<Longrightarrow> castle_objects_rq_iter_has_next iter = Inr (True, iter)"
  by (subst has_next_unfold) simp

lemma has_next_empty:
  "cached iter = None \<Longrightarrow> da_rq_iter iter = [] \<Longrightarrow>
   castle_objects_rq_iter_has_next iter = Inr (False, iter)"
  by (subst has_next_unfold) simp

lemma has_next_inside:
  "cached iter = None \<Longrightarrow> da_rq_iter iter = e # rest \<Longrightarrow>
   castle_object_btree_key_bounds_check (e_key e) (start_okey iter) (end_okey iter) = Inr (0, od) \<Longrightarrow>
   castle_objects_rq_iter_has_next iter = Inr (True, iter\<lparr>da_rq_iter := rest, cached := Some e\<rparr>)"
  by (subst has_next_unfold) (simp add: has_next_cached)

lemma has_next_outside:
  "cached iter = None \<Longrightarrow> da_rq_iter iter = e # rest \<Longrightarrow>
   castle_object_btree_key_bounds_check (e_key e) (start_okey iter) (end_okey iter) = Inr (b, od) \<Longrightarrow>
   b \<noteq> 0 \<Longrightarrow>
   castle_objects_rq_iter_has_next iter =
     (case od of
        None \<Rightarrow> Inl OOB
      | Some d \<Rightarrow>
          (case castle_object_btree_key_skip (e_key e) (start_okey iter) d b of
             Inl f \<Rightarrow> Inl f
           | Inr next_key \<Rightarrow>
               castle_objects_rq_iter_has_next
                 (iter\<lparr>da_rq_iter := castle_da_rq_iter_skip next_key rest\<rparr>)))"
  by (subst has_next_unfold) simp

lemma has_next_fault:
  "cached iter = None \<Longrightarrow> da_rq_iter iter = e # rest \<Longrightarrow>
   castle_object_btree_key_bounds_check (e_key e) (start_okey iter) (end_okey iter) = Inl f \<Longrightarrow>
   castle_objects_rq_iter_has_next iter = Inl f"
  by (subst has_next_unfold) simp

lemma sorted_wrt_dropWhile_any: "sorted_wrt P xs \<Longrightarrow> sorted_wrt P (dropWhile Q xs)"
  by (induction xs) auto

lemma has_next_result:
  "castle_objects_rq_iter_has_next iter = Inr (r, iter') \<Longrightarrow> cached iter = None \<Longrightarrow>
     start_okey iter' = start_okey iter \<and> end_okey iter' = end_okey iter \<and>
     set (pending iter') \<subseteq> set (da_rq_iter iter) \<and>
     (sorted_wrt P (da_rq_iter iter) \<longrightarrow> sorted_wrt P (pending iter')) \<and>
     (r \<longrightarrow> (\<exists>e. cached iter' = Some e \<and> in_bounds iter e) \<and>
              length (da_rq_iter iter') < length (da_rq_iter iter)) \<and>
     (\<not> r \<longrightarrow> pending iter' = [])"
proof (induction "length (da_rq_iter iter)" arbitrary: iter rule: less_induct)
  case less
  note nc = less.prems(2)
  show ?case
  proof (cases "da_rq_iter iter")
    case Nil
    with less.prems have "iter' = iter" "\<not> r" by (simp_all add: has_next_empty)
    with nc Nil show ?thesis by (simp add: pending_def)
  next
    case (Cons e rest)
    show ?thesis
    proof (cases "castle_object_btree_key_bounds_check (e_key e) (start_okey iter) (end_okey iter)")
      case (Inl f)
      from has_next_fault [OF nc Cons Inl] less.prems(1) show ?thesis by simp
    next
      case (Inr res)
      obtain b od where res: "res = (b, od)" by (cases res)
      show ?thesis
      proof (cases "b = 0")
        case True
        with Inr res have bc: "castle_object_btree_key_bounds_check (e_key e) (start_okey iter)
            (end_okey iter) = Inr (0, od)" by simp
        from bounds_check_zero [OF bc] bc have ib: "in_bounds iter e"
          by (simp add: in_bounds_def)
        from has_next_inside [OF nc Cons bc] less.prems(1)
        have "r" "iter' = iter\<lparr>da_rq_iter := rest, cached := Some e\<rparr>" by simp_all
        with Cons ib show ?thesis by (simp add: pending_def)
      next
        case False
        with Inr res have bc: "castle_object_btree_key_bounds_check (e_key e) (start_okey iter)
            (end_okey iter) = Inr (b, od)" by simp
        from has_next_outside [OF nc Cons bc False] less.prems(1) obtain d next_key where
          "od = Some d"
          and sk: "castle_object_btree_key_skip (e_key e) (start_okey iter) d b = Inr next_key"
          and rec: "castle_objects_rq_iter_has_next
                      (iter\<lparr>da_rq_iter := castle_da_rq_iter_skip next_key rest\<rparr>) = Inr (r, iter')"
          by (auto split: option.splits sum.splits)
        let ?it = "iter\<lparr>da_rq_iter := castle_da_rq_iter_skip next_key rest\<rparr>"
        have le: "length (da_rq_iter ?it) \<le> length rest"
          by (simp add: castle_da_rq_iter_skip_def length_dropWhile_le)
        with Cons have lt: "length (da_rq_iter ?it) < length (da_rq_iter iter)" by simp
        have nc': "cached ?it = None" using nc by simp
        have sub: "set (da_rq_iter ?it) \<subseteq> set rest"
          by (auto simp add: castle_da_rq_iter_skip_def dest: set_dropWhileD)
        have srt: "sorted_wrt P (da_rq_iter iter) \<Longrightarrow> sorted_wrt P (da_rq_iter ?it)"
          using Cons by (simp add: castle_da_rq_iter_skip_def sorted_wrt_dropWhile_any)
        from less.hyps [OF lt rec nc'] sub srt lt Cons show ?thesis
          by (auto simp add: in_bounds_def)
      qed
    qed
  qed
qed


lemma has_next_shrinks:
  "castle_objects_rq_iter_has_next iter = Inr (True, iter1) \<Longrightarrow> cached iter = None \<Longrightarrow>
   length (da_rq_iter iter1) < length (da_rq_iter iter)"
  using has_next_result [of iter True iter1 "\<lambda>_ _. True"] by simp

text \<open>The loop of a client (\<^verbatim>\<open>castle_object_slice_get\<close>): while the iterator has a next
  entry, take it. The result is the sequence of the entries emitted.\<close>

function rq_iter_drain :: "c_obj_rq_iter \<Rightarrow> fault + rq_entry list" where
  "rq_iter_drain iter =
     (case castle_objects_rq_iter_has_next iter of
        Inl f \<Rightarrow> Inl f
      | Inr (False, iter1) \<Rightarrow> Inr []
      | Inr (True, iter1) \<Rightarrow>
          (case castle_objects_rq_iter_next iter1 of
             Inl f \<Rightarrow> Inl f
           | Inr (e, iter2) \<Rightarrow>
               (case rq_iter_drain iter2 of Inl f \<Rightarrow> Inl f | Inr es \<Rightarrow> Inr (e # es))))"
  by pat_completeness auto
termination
  apply (relation "measure (\<lambda>iter. 2 * length (da_rq_iter iter) + (if cached iter = None then 0 else 1))")
   apply simp
  subgoal for iter x2 x1 x2a x2b xa y
    apply (cases "cached iter = None")
     apply (auto simp add: castle_objects_rq_iter_next_def has_next_cached
        split: option.splits dest: has_next_shrinks)
    done
  done

declare rq_iter_drain.simps [simp del]

text \<open>Modelled from the spec: \<^verbatim>\<open>castle_da_rq_iter_init\<close> (castle\_da.c) is not among
  the sources. The inner iterator ranges over the entries of the doubling array, given in
  its order, whose key lies between the two encoded bounds.\<close>

definition castle_da_rq_iter_init :: "c_vl_bkey \<Rightarrow> c_vl_bkey \<Rightarrow> rq_entry list \<Rightarrow> c_da_rq_iter" where
  "castle_da_rq_iter_init start_bkey end_bkey entries =
     filter (\<lambda>e. \<not> key_below (e_key e) start_bkey \<and> \<not> key_below end_bkey (e_key e)) entries"

definition castle_objects_rq_iter_init ::
  "c_vl_okey \<Rightarrow> c_vl_okey \<Rightarrow> rq_entry list \<Rightarrow> fault + c_obj_rq_iter" where
  "castle_objects_rq_iter_init start_key end_key entries =
     (case castle_object_key_convert start_key of
        Inl f \<Rightarrow> Inl f
      | Inr start_bkey \<Rightarrow>
          (case castle_object_key_convert end_key of
             Inl f \<Rightarrow> Inl f
           | Inr end_bkey \<Rightarrow>
               Inr \<lparr>start_okey = start_key, end_okey = end_key,
                    da_rq_iter = castle_da_rq_iter_init start_bkey end_bkey entries,
                    cached = None\<rparr>))"

lemma rq_iter_drain_result:
  "rq_iter_drain iter = Inr es \<Longrightarrow> cached iter = None \<Longrightarrow>
   sorted_wrt P (da_rq_iter iter) \<Longrightarrow>
     set es \<subseteq> set (da_rq_iter iter) \<and> (\<forall>e \<in> set es. in_bounds iter e) \<and> sorted_wrt P es"
proof (induction "length (da_rq_iter iter)" arbitrary: iter es rule: less_induct)
  case less
  note nc = less.prems(2) and srt = less.prems(3)
  from less.prems(1) obtain r iter1 where hn: "castle_objects_rq_iter_has_next iter = Inr (r, iter1)"
    by (subst (asm) rq_iter_drain.simps) (auto split: sum.splits)
  note res = has_next_result [OF hn nc, of P]
  show ?case
  proof (cases r)
    case False
    with less.prems(1) hn have "es = []"
      by (subst (asm) rq_iter_drain.simps) simp
    then show ?thesis by simp
  next
    case True
    with res obtain e where c1: "cached iter1 = Some e" and ib: "in_bounds iter e"
      and lt: "length (da_rq_iter iter1) < length (da_rq_iter iter)" by blast
    let ?it2 = "iter1\<lparr>cached := None\<rparr>"
    from c1 have nx: "castle_objects_rq_iter_next iter1 = Inr (e, ?it2)"
      by (simp add: castle_objects_rq_iter_next_def)
    from less.prems(1) hn True nx obtain es' where
      es: "es = e # es'" and d2: "rq_iter_drain ?it2 = Inr es'"
      by (subst (asm) rq_iter_drain.simps) (auto split: sum.splits)
    from res srt c1 have s1: "sorted_wrt P (e # da_rq_iter iter1)"
      by (simp add: pending_def)
    from res c1 have sub: "set (e # da_rq_iter iter1) \<subseteq> set (da_rq_iter iter)"
      by (simp add: pending_def)
    from lt have lt2: "length (da_rq_iter ?it2) < length (da_rq_iter iter)" by simp
    from s1 have s2: "sorted_wrt P (da_rq_iter ?it2)" by simp
    from less.hyps [OF lt2 d2 _ s2]
    have ih: "set es' \<subseteq> set (da_rq_iter iter1)" "\<forall>x \<in> set es'. in_bounds ?it2 x" "sorted_wrt P es'"
      by simp_all
    from res have "in_bounds ?it2 = in_bounds iter"
      by (simp add: in_bounds_def fun_eq_iff)
    with ih s1 sub ib es show ?thesis by auto
  qed
qed


definition rq_start :: c_vl_okey where "rq_start = [[1], [2]]"
definition rq_end :: c_vl_okey where "rq_end = [[2], [3]]"

definition key_of :: "u8 \<Rightarrow> u8 \<Rightarrow> c_vl_bkey" where
  "key_of a b = \<lparr>length_b = 22, nr_dims = 2, dim_head = [6144, 6400], payload = [a, b]\<rparr>"

definition entry_of :: "u8 \<Rightarrow> u8 \<Rightarrow> rq_entry" where
  "entry_of a b = \<lparr>e_key = key_of a b, e_version = 1, e_cvt = CVT_INLINE [a, b]\<rparr>"

definition rq_entries :: "rq_entry list" where
  "rq_entries = [entry_of 1 2, entry_of 1 5, entry_of 2 1, entry_of 2 3]"

text \<open>Claim C4. For a range query with non-empty start and end keys of the same number of
  dimensions, over an inner iterator whose entries ascend strictly in the compare order of
  B-tree keys: every entry the iterator emits has bounds-check value 0 against the start
  and end keys, and the entries emitted ascend strictly in the same order.\<close>

theorem rq_iter_emits_in_bounds_ascending:
  assumes "start_key \<noteq> []" and "length start_key = length end_key"
    and "list_all (\<lambda>d. d \<noteq> []) start_key" and "list_all (\<lambda>d. d \<noteq> []) end_key"
    and srt: "sorted_wrt (\<lambda>a b. key_below (e_key a) (e_key b)) entries"
    and init: "castle_objects_rq_iter_init start_key end_key entries = Inr iter"
    and dr: "rq_iter_drain iter = Inr es"
  shows "list_all (\<lambda>e. castle_object_btree_key_bounds_check (e_key e) start_key end_key = Inr (0, None)) es \<and>
         sorted_wrt (\<lambda>a b. key_below (e_key a) (e_key b)) es"
proof -
  from init obtain sb eb where
    it: "start_okey iter = start_key" "end_okey iter = end_key" "cached iter = None"
    and da: "da_rq_iter iter = castle_da_rq_iter_init sb eb entries"
    by (auto simp add: castle_objects_rq_iter_init_def split: sum.splits)
  from da srt have "sorted_wrt (\<lambda>a b. key_below (e_key a) (e_key b)) (da_rq_iter iter)"
    by (simp add: castle_da_rq_iter_init_def sorted_wrt_filter)
  from rq_iter_drain_result [OF dr it(3) this] it show ?thesis
    by (simp add: in_bounds_def list_all_iff)
qed

lemma has_next_Some:
  "castle_objects_rq_iter_has_next \<lparr>start_okey = s, end_okey = t, da_rq_iter = xs, cached = Some e\<rparr> =
     Inr (True, \<lparr>start_okey = s, end_okey = t, da_rq_iter = xs, cached = Some e\<rparr>)"
  by (simp add: has_next_cached)

lemma has_next_Nil:
  "castle_objects_rq_iter_has_next \<lparr>start_okey = s, end_okey = t, da_rq_iter = [], cached = None\<rparr> =
     Inr (False, \<lparr>start_okey = s, end_okey = t, da_rq_iter = [], cached = None\<rparr>)"
  by (simp add: has_next_empty)

lemma has_next_Cons:
  "castle_objects_rq_iter_has_next \<lparr>start_okey = s, end_okey = t, da_rq_iter = e # rest, cached = None\<rparr> =
     (case castle_object_btree_key_bounds_check (e_key e) s t of
        Inl f \<Rightarrow> Inl f
      | Inr (bigger, od) \<Rightarrow>
          if bigger \<noteq> 0 then
            (case od of
               None \<Rightarrow> Inl OOB
             | Some d \<Rightarrow>
                 (case castle_object_btree_key_skip (e_key e) s d bigger of
                    Inl f \<Rightarrow> Inl f
                  | Inr next_key \<Rightarrow>
                      castle_objects_rq_iter_has_next
                        \<lparr>start_okey = s, end_okey = t,
                           da_rq_iter = castle_da_rq_iter_skip next_key rest, cached = None\<rparr>))
          else Inr (True, \<lparr>start_okey = s, end_okey = t, da_rq_iter = rest, cached = Some e\<rparr>))"
  by (subst has_next_unfold) (auto simp add: has_next_Some split: sum.splits option.splits)

lemma rq_iter_drain_Nil:
  "rq_iter_drain \<lparr>start_okey = s, end_okey = t, da_rq_iter = [], cached = None\<rparr> = Inr []"
  by (subst rq_iter_drain.simps) (simp add: has_next_Nil)

lemma rq_iter_drain_Some:
  "rq_iter_drain \<lparr>start_okey = s, end_okey = t, da_rq_iter = xs, cached = Some e\<rparr> =
     (case rq_iter_drain \<lparr>start_okey = s, end_okey = t, da_rq_iter = xs, cached = None\<rparr> of
        Inl f \<Rightarrow> Inl f | Inr es \<Rightarrow> Inr (e # es))"
  by (subst rq_iter_drain.simps) (simp add: has_next_Some castle_objects_rq_iter_next_def)

lemma rq_iter_drain_Cons:
  "rq_iter_drain \<lparr>start_okey = s, end_okey = t, da_rq_iter = e # rest, cached = None\<rparr> =
     (case castle_objects_rq_iter_has_next
             \<lparr>start_okey = s, end_okey = t, da_rq_iter = e # rest, cached = None\<rparr> of
        Inl f \<Rightarrow> Inl f
      | Inr (r, iter1) \<Rightarrow>
          if r then
            (case cached iter1 of
               None \<Rightarrow> Inl BUG
             | Some e' \<Rightarrow>
                 (case rq_iter_drain (iter1\<lparr>cached := None\<rparr>) of
                    Inl f \<Rightarrow> Inl f | Inr es \<Rightarrow> Inr (e' # es)))
          else Inr [])"
  by (subst rq_iter_drain.simps)
    (auto simp add: castle_objects_rq_iter_next_def split: sum.splits option.splits)

lemmas rq_eval = has_next_Some has_next_Nil has_next_Cons rq_iter_drain_Nil rq_iter_drain_Some
  rq_iter_drain_Cons

lemmas rq_example_defs = castle_da_rq_iter_skip_def key_below_def rq_start_def rq_end_def
  rq_entries_def entry_of_def key_of_def key_defs Let_def upt_rec
  castle_object_btree_key_bounds_check_def castle_object_btree_key_skip_def

theorem rq_iter_emits_in_bounds_ascending_witness:
  "rq_start \<noteq> [] \<and> length rq_start = length rq_end \<and>
   list_all (\<lambda>d. d \<noteq> []) rq_start \<and> list_all (\<lambda>d. d \<noteq> []) rq_end \<and>
   sorted_wrt (\<lambda>a b. key_below (e_key a) (e_key b)) rq_entries \<and>
   (\<exists>iter. castle_objects_rq_iter_init rq_start rq_end rq_entries = Inr iter \<and>
      rq_iter_drain iter = Inr [entry_of 1 2, entry_of 2 3]) \<and>
   list_all (\<lambda>e. castle_object_btree_key_bounds_check (e_key e) rq_start rq_end = Inr (0, None))
     [entry_of 1 2, entry_of 2 3] \<and>
   sorted_wrt (\<lambda>a b. key_below (e_key a) (e_key b)) [entry_of 1 2, entry_of 2 3]"
proof -
  let ?iter = "\<lparr>start_okey = rq_start, end_okey = rq_end, da_rq_iter = rq_entries, cached = None\<rparr>"
  have a: "rq_start \<noteq> []" "length rq_start = length rq_end"
    "list_all (\<lambda>d. d \<noteq> []) rq_start" "list_all (\<lambda>d. d \<noteq> []) rq_end"
    by (simp_all add: rq_start_def rq_end_def)
  have s: "sorted_wrt (\<lambda>a b. key_below (e_key a) (e_key b)) rq_entries"
    by (simp add: rq_example_defs)
  have i: "castle_objects_rq_iter_init rq_start rq_end rq_entries = Inr ?iter"
    by (simp add: castle_objects_rq_iter_init_def castle_da_rq_iter_init_def rq_example_defs)
  have d: "rq_iter_drain ?iter = Inr [entry_of 1 2, entry_of 2 3]"
    by (simp add: rq_eval rq_example_defs)
  from rq_iter_emits_in_bounds_ascending [OF a s i d] a s i d show ?thesis by simp
qed

section \<open>Version registry (castle\_versions.c)\<close>

type_synonym version_t = u32

text \<open>Modelled from the spec: castle.h is not among the sources; the invalid version and
  the invalid doubling-array id are the all-ones values of their 32-bit types.\<close>

definition INVAL_VERSION :: version_t where "INVAL_VERSION = - 1"
definition VERSION_INVAL :: "version_t \<Rightarrow> bool" where "VERSION_INVAL v = (v = INVAL_VERSION)"
definition INVAL_DA :: u32 where "INVAL_DA = - 1"
definition DA_INVAL :: "u32 \<Rightarrow> bool" where "DA_INVAL d = (d = INVAL_DA)"

text \<open>The union of \<^verbatim>\<open>struct castle_version\<close>: the parent's id while the version is not
  inited, a reference to the parent (NULL for the root) once it is. References to
  versions are their ids, the keys of the hash.\<close>

datatype parent_link = Parent_v version_t | Parent "version_t option"

text \<open>\<^verbatim>\<open>struct castle_version\<close>; the three flag bits the registry uses are three booleans.\<close>

record castle_version =
  version :: version_t
  parent_u :: parent_link
  first_child :: "version_t option"
  next_sybling :: "version_t option"
  o_order :: version_t
  r_order :: version_t
  da_id :: u32
  size_v :: "64 word"
  cv_inited :: bool
  cv_attached :: bool
  cv_snap :: bool

type_synonym versions_hash = "version_t \<Rightarrow> castle_version option"

text \<open>The registry: the hash, the init list (head first), the last id given out, and the
  static counter of \<^verbatim>\<open>castle_version_add\<close>, an \<^verbatim>\<open>atomic_t\<close> (a signed 32-bit integer).\<close>

record versions =
  castle_versions_hash :: versions_hash
  castle_versions_init_list :: "version_t list"
  castle_versions_last :: version_t
  version_cnt :: "32 word"

text \<open>What the registry asks of its collaborators: whether the slab allocation succeeds,
  and the result of \<^verbatim>\<open>castle_sysfs_version_add\<close> for a version.\<close>

record versions_env =
  kmem_cache_alloc_ok :: bool
  castle_sysfs_version_add :: "version_t \<Rightarrow> int"

text \<open>\<^verbatim>\<open>castle_version_add\<close>. The result is the new version (NULL is \<open>None\<close>) and the
  registry. An id that is in the hash already is outside the model (one id, one version).\<close>

definition castle_version_add ::
  "versions_env \<Rightarrow> version_t \<Rightarrow> version_t \<Rightarrow> u32 \<Rightarrow> 64 word \<Rightarrow> versions \<Rightarrow>
     fault + version_t option \<times> versions" where
  "castle_version_add env ver parent da sz s =
     (let s1 = s\<lparr>version_cnt := version_cnt s + 1\<rparr> in
      if sint (version_cnt s1) > 900 then Inr (None, s1)
      else if \<not> kmem_cache_alloc_ok env then Inr (None, s1)
      else if castle_versions_hash s1 ver \<noteq> None then Inl OOB
      else
        let v = \<lparr>version = ver, parent_u = Parent_v parent, first_child = None,
                 next_sybling = None, o_order = INVAL_VERSION, r_order = INVAL_VERSION,
                 da_id = da, size_v = sz, cv_inited = False, cv_attached = False,
                 cv_snap = False\<rparr>
        in if ver = 0 then
             if castle_sysfs_version_add env ver \<noteq> 0 then Inr (None, s1)
             else Inr (Some ver,
                    s1\<lparr>castle_versions_hash := (castle_versions_hash s1)
                          (ver \<mapsto> v\<lparr>parent_u := Parent None, cv_inited := True\<rparr>)\<rparr>)
           else Inr (Some ver,
                  s1\<lparr>castle_versions_init_list := ver # castle_versions_init_list s1,
                      castle_versions_hash := (castle_versions_hash s1)(ver \<mapsto> v)\<rparr>))"

text \<open>A place that holds a reference to a version: the \<^verbatim>\<open>first_child\<close> field or the
  \<^verbatim>\<open>next_sybling\<close> field of a version (\<^verbatim>\<open>pprev\<close> in \<^verbatim>\<open>castle_versions_insert\<close>).\<close>

datatype link = First_child_of version_t | Next_sybling_of version_t

definition read_link :: "versions_hash \<Rightarrow> link \<Rightarrow> fault + version_t option" where
  "read_link h l =
     (case l of
        First_child_of p \<Rightarrow> (case h p of None \<Rightarrow> Inl OOB | Some cp \<Rightarrow> Inr (first_child cp))
      | Next_sybling_of p \<Rightarrow> (case h p of None \<Rightarrow> Inl OOB | Some cp \<Rightarrow> Inr (next_sybling cp)))"

definition write_link :: "versions_hash \<Rightarrow> link \<Rightarrow> version_t option \<Rightarrow> fault + versions_hash" where
  "write_link h l x =
     (case l of
        First_child_of p \<Rightarrow>
          (case h p of None \<Rightarrow> Inl OOB | Some cp \<Rightarrow> Inr (h(p \<mapsto> cp\<lparr>first_child := x\<rparr>)))
      | Next_sybling_of p \<Rightarrow>
          (case h p of None \<Rightarrow> Inl OOB | Some cp \<Rightarrow> Inr (h(p \<mapsto> cp\<lparr>next_sybling := x\<rparr>))))"

text \<open>The \<^verbatim>\<open>while\<close> loop of \<^verbatim>\<open>castle_versions_insert\<close>: it walks the sibling list
  while the sibling's id is above the new version's, and ends with the place to write
  and the sibling that follows.\<close>

partial_function (option) insert_walk ::
  "versions_hash \<Rightarrow> link \<Rightarrow> version_t \<Rightarrow> (fault + link \<times> version_t option) option" where
  "insert_walk h pprev ver =
     (case read_link h pprev of
        Inl f \<Rightarrow> Some (Inl f)
      | Inr None \<Rightarrow> Some (Inr (pprev, None))
      | Inr (Some sl) \<Rightarrow>
          (case h sl of
             None \<Rightarrow> Some (Inl OOB)
           | Some cs \<Rightarrow>
               if version cs > ver then insert_walk h (Next_sybling_of sl) ver
               else Some (Inr (pprev, Some sl))))"

definition castle_versions_insert ::
  "versions_hash \<Rightarrow> version_t \<Rightarrow> version_t \<Rightarrow> (fault + versions_hash) option" where
  "castle_versions_insert h p v =
     (case h v of
        None \<Rightarrow> Some (Inl OOB)
      | Some cv \<Rightarrow>
          let h1 = h(v \<mapsto> cv\<lparr>parent_u := Parent (Some p)\<rparr>) in
          (case insert_walk h1 (First_child_of p) (version cv) of
             None \<Rightarrow> None
           | Some (Inl f) \<Rightarrow> Some (Inl f)
           | Some (Inr (pprev, sybling_list)) \<Rightarrow>
               (case h1 v of
                  None \<Rightarrow> Some (Inl OOB)
                | Some cv1 \<Rightarrow>
                    (case write_link (h1(v \<mapsto> cv1\<lparr>next_sybling := sybling_list\<rparr>)) pprev (Some v) of
                       Inl f \<Rightarrow> Some (Inl f)
                     | Inr h2 \<Rightarrow> Some (Inr h2)))))"

text \<open>The first loop of \<^verbatim>\<open>castle_versions_process\<close>. The last argument is \<open>None\<close> at the
  head of the \<^verbatim>\<open>while\<close> loop and the version to process at the label
  \<^verbatim>\<open>process_version\<close>. Removing from the init list a version that is not on it follows
  poisoned list pointers, which is outside the model.\<close>

partial_function (option) process_init_list ::
  "versions_hash \<Rightarrow> version_t list \<Rightarrow> version_t list \<Rightarrow> int \<Rightarrow> version_t option \<Rightarrow>
     (fault + versions_hash \<times> version_t list \<times> int) option" where
  "process_init_list h il sysfs_list err cur =
     (case cur of
        None \<Rightarrow>
          (case il of
             [] \<Rightarrow> Some (Inr (h, sysfs_list, err))
           | v # _ \<Rightarrow> process_init_list h il sysfs_list err (Some v))
      | Some v \<Rightarrow>
          if v \<notin> set il then Some (Inl OOB)
          else
            let il1 = remove1 v il in
            (case h v of
               None \<Rightarrow> Some (Inl OOB)
             | Some cv \<Rightarrow>
                 if cv_inited cv then Some (Inl BUG)
                 else
                   (case parent_u cv of
                      Parent _ \<Rightarrow> Some (Inl OOB)
                    | Parent_v pv \<Rightarrow>
                        (case h pv of
                           None \<Rightarrow> Some (Inl BUG)
                         | Some cp \<Rightarrow>
                             if cv_snap cv \<and> first_child cp \<noteq> None
                             then process_init_list h il1 sysfs_list (- 1) None
                             else if \<not> cv_snap cv \<and> cv_attached cp \<and> first_child cp = None
                             then process_init_list h il1 sysfs_list (- 2) None
                             else if \<not> cv_inited cp
                             then process_init_list h (v # il1) sysfs_list err (Some pv)
                             else
                               (case castle_versions_insert h pv v of
                                  None \<Rightarrow> None
                                | Some (Inl f) \<Rightarrow> Some (Inl f)
                                | Some (Inr h1) \<Rightarrow>
                                    (case h1 v of
                                       None \<Rightarrow> Some (Inl OOB)
                                     | Some cv1 \<Rightarrow>
                                         process_init_list (h1(v \<mapsto> cv1\<lparr>cv_inited := True\<rparr>))
                                           il1 (v # sysfs_list) err None))))))"

text \<open>The second loop of \<^verbatim>\<open>castle_versions_process\<close>: the depth-first numbering, without
  a stack, from the version \<open>v\<close> on.\<close>

partial_function (option) process_dfs ::
  "versions_hash \<Rightarrow> version_t option \<Rightarrow> version_t \<Rightarrow> bool \<Rightarrow> (fault + versions_hash) option" where
  "process_dfs h v ident children_first =
     (case v of
        None \<Rightarrow> Some (Inr h)
      | Some x \<Rightarrow>
          (case h x of
             None \<Rightarrow> Some (Inl OOB)
           | Some cv \<Rightarrow>
               if children_first then
                 let ident1 = ident + 1;
                     cv1 = cv\<lparr>o_order := ident1\<rparr>;
                     n = first_child cv1;
                     cv2 = (if n = None then cv1\<lparr>r_order := o_order cv1\<rparr> else cv1);
                     h1 = h(x \<mapsto> cv2)
                 in if n \<noteq> None then process_dfs h1 n ident1 True
                    else if next_sybling cv2 \<noteq> None
                    then process_dfs h1 (next_sybling cv2) ident1 True
                    else
                      (case parent_u cv2 of
                         Parent_v _ \<Rightarrow> Some (Inl OOB)
                       | Parent par \<Rightarrow> process_dfs h1 par ident1 False)
               else
                 let cv1 = cv\<lparr>r_order := ident\<rparr>;
                     h1 = h(x \<mapsto> cv1)
                 in if next_sybling cv1 \<noteq> None
                    then process_dfs h1 (next_sybling cv1) ident True
                    else
                      (case parent_u cv1 of
                         Parent_v _ \<Rightarrow> Some (Inl OOB)
                       | Parent par \<Rightarrow> process_dfs h1 par ident False)))"

text \<open>The third loop: each version inited in this run is added to sysfs; a failure sets
  the return value to \<open>-3\<close>.\<close>

fun process_sysfs :: "versions_env \<Rightarrow> version_t list \<Rightarrow> int \<Rightarrow> int" where
  "process_sysfs env [] err = err"
| "process_sysfs env (v # vs) err =
     (if castle_sysfs_version_add env v \<noteq> 0 then process_sysfs env vs (- 3)
      else process_sysfs env vs err)"

definition castle_versions_process :: "versions_env \<Rightarrow> versions \<Rightarrow> (fault + int \<times> versions) option" where
  "castle_versions_process env s =
     (case process_init_list (castle_versions_hash s) (castle_versions_init_list s) [] 0 None of
        None \<Rightarrow> None
      | Some (Inl f) \<Rightarrow> Some (Inl f)
      | Some (Inr (h, sysfs_list, err)) \<Rightarrow>
          (case h 0 of
             None \<Rightarrow> Some (Inl BUG)
           | Some root \<Rightarrow>
               if \<not> cv_inited root then Some (Inl BUG)
               else if parent_u root \<noteq> Parent None then Some (Inl BUG)
               else
                 (case process_dfs h (Some 0) 0 True of
                    None \<Rightarrow> None
                  | Some (Inl f) \<Rightarrow> Some (Inl f)
                  | Some (Inr h1) \<Rightarrow>
                      Some (Inr (process_sysfs env sysfs_list err,
                                 s\<lparr>castle_versions_hash := h1, castle_versions_init_list := []\<rparr>)))))"


text \<open>\<^verbatim>\<open>castle_version_new_create\<close> and \<^verbatim>\<open>castle_version_new\<close>.\<close>

definition castle_version_new_create ::
  "versions_env \<Rightarrow> bool \<Rightarrow> version_t \<Rightarrow> u32 \<Rightarrow> 64 word \<Rightarrow> versions \<Rightarrow>
     (fault + version_t option \<times> versions) option" where
  "castle_version_new_create env snap_or_clone parent da sz s =
     (case castle_versions_hash s parent of
        None \<Rightarrow> Some (Inr (None, s))
      | Some p \<Rightarrow>
          let parent_size = size_v p in
          if VERSION_INVAL (castle_versions_last s) then Some (Inl BUG)
          else
            let ver = castle_versions_last s + 1;
                s1 = s\<lparr>castle_versions_last := ver\<rparr>
            in if VERSION_INVAL (castle_versions_last s1) then Some (Inl BUG)
               else if \<not> DA_INVAL da \<and> \<not> DA_INVAL (da_id p) then Some (Inl BUG)
               else
                 let da1 = (if DA_INVAL da then da_id p else da) in
                 (case castle_version_add env ver parent da1 sz s1 of
                    Inl f \<Rightarrow> Some (Inl f)
                  | Inr (None, s2) \<Rightarrow> Some (Inr (None, s2))
                  | Inr (Some v, s2) \<Rightarrow>
                      (case castle_versions_hash s2 v of
                         None \<Rightarrow> Some (Inl OOB)
                       | Some cv \<Rightarrow>
                           let cv1 = (if parent_size \<noteq> 0 then cv\<lparr>size_v := parent_size\<rparr> else cv);
                               cv2 = cv1\<lparr>cv_snap := snap_or_clone\<rparr>;
                               s3 = s2\<lparr>castle_versions_hash := (castle_versions_hash s2)(v \<mapsto> cv2)\<rparr>
                           in (case castle_versions_process env s3 of
                                 None \<Rightarrow> None
                               | Some (Inl f) \<Rightarrow> Some (Inl f)
                               | Some (Inr (err, s4)) \<Rightarrow>
                                   (case castle_versions_hash s4 v of
                                      None \<Rightarrow> Some (Inl OOB)
                                    | Some cv4 \<Rightarrow>
                                        if \<not> cv_inited cv4
                                        then Some (Inr (None,
                                               s4\<lparr>castle_versions_hash := (castle_versions_hash s4)(v := None)\<rparr>))
                                        else Some (Inr (Some v, s4)))))))"

definition castle_version_new ::
  "versions_env \<Rightarrow> bool \<Rightarrow> version_t \<Rightarrow> u32 \<Rightarrow> 64 word \<Rightarrow> versions \<Rightarrow>
     (fault + version_t \<times> versions) option" where
  "castle_version_new env snap_or_clone parent da sz s =
     (case castle_version_new_create env snap_or_clone parent da sz s of
        None \<Rightarrow> None
      | Some (Inl f) \<Rightarrow> Some (Inl f)
      | Some (Inr (None, s1)) \<Rightarrow> Some (Inr (INVAL_VERSION, s1))
      | Some (Inr (Some v, s1)) \<Rightarrow> Some (Inr (v, s1)))"

definition castle_version_attach :: "version_t \<Rightarrow> versions \<Rightarrow> int \<times> versions" where
  "castle_version_attach ver s =
     (case castle_versions_hash s ver of
        None \<Rightarrow> (- EINVAL, s)
      | Some v \<Rightarrow>
          if cv_attached v then (- EAGAIN, s)
          else (0, s\<lparr>castle_versions_hash := (castle_versions_hash s)(ver \<mapsto> v\<lparr>cv_attached := True\<rparr>)\<rparr>))"

definition castle_version_detach :: "version_t \<Rightarrow> versions \<Rightarrow> fault + versions" where
  "castle_version_detach ver s =
     (case castle_versions_hash s ver of
        None \<Rightarrow> Inl BUG
      | Some v \<Rightarrow>
          if \<not> cv_attached v then Inl BUG
          else Inr (s\<lparr>castle_versions_hash := (castle_versions_hash s)(ver \<mapsto> v\<lparr>cv_attached := False\<rparr>)\<rparr>))"

definition castle_versions_zero_init :: "versions_env \<Rightarrow> versions \<Rightarrow> fault + int \<times> versions" where
  "castle_versions_zero_init env s =
     (case castle_version_add env 0 0 INVAL_DA 0 s of
        Inl f \<Rightarrow> Inl f
      | Inr (None, s1) \<Rightarrow> Inr (- 1, s1)
      | Inr (Some v, s1) \<Rightarrow> Inr (0, s1\<lparr>castle_versions_last := v\<rparr>))"

text \<open>An entry of the metadata store (\<^verbatim>\<open>struct castle_vlist_entry\<close>), and the loop of
  \<^verbatim>\<open>castle_versions_read\<close> over the entries the store holds; the store itself is taken to
  open.\<close>

record castle_vlist_entry =
  version_nr :: version_t
  parent :: version_t
  size_e :: "64 word"
  da_id_e :: u32

fun versions_read_loop ::
  "versions_env \<Rightarrow> castle_vlist_entry list \<Rightarrow> versions \<Rightarrow> fault + int option \<times> versions" where
  "versions_read_loop env [] s = Inr (None, s)"
| "versions_read_loop env (e # es) s =
     (case castle_version_add env (version_nr e) (parent e) (da_id_e e) (size_e e) s of
        Inl f \<Rightarrow> Inl f
      | Inr (None, s1) \<Rightarrow> Inr (Some (- ENOMEM), s1)
      | Inr (Some v, s1) \<Rightarrow>
          versions_read_loop env es
            (if VERSION_INVAL (castle_versions_last s1) \<or> v > castle_versions_last s1
             then s1\<lparr>castle_versions_last := v\<rparr> else s1))"

definition castle_versions_read ::
  "versions_env \<Rightarrow> castle_vlist_entry list \<Rightarrow> versions \<Rightarrow> (fault + int \<times> versions) option" where
  "castle_versions_read env entries s =
     (case versions_read_loop env entries s of
        Inl f \<Rightarrow> Some (Inl f)
      | Inr (Some ret, s1) \<Rightarrow> Some (Inr (ret, s1))
      | Inr (None, s1) \<Rightarrow> castle_versions_process env s1)"

text \<open>The loop of \<^verbatim>\<open>castle_versions_drop\<close> over the siblings of \<open>v\<close>: where it meets \<open>v\<close>
  it links the sibling before (or the parent) to the sibling after, and goes on to the
  end of the list.\<close>

partial_function (option) drop_walk ::
  "versions_hash \<Rightarrow> version_t \<Rightarrow> version_t \<Rightarrow> version_t option \<Rightarrow> version_t option \<Rightarrow>
     (fault + versions_hash) option" where
  "drop_walk h v p prev sybling_list =
     (case sybling_list of
        None \<Rightarrow> Some (Inr h)
      | Some sl \<Rightarrow>
          (case h v of
             None \<Rightarrow> Some (Inl OOB)
           | Some cv \<Rightarrow>
               (case (if sl = v
                      then write_link h (case prev of None \<Rightarrow> First_child_of p | Some q \<Rightarrow> Next_sybling_of q)
                             (next_sybling cv)
                      else Inr h) of
                  Inl f \<Rightarrow> Some (Inl f)
                | Inr h1 \<Rightarrow>
                    (case h1 sl of
                       None \<Rightarrow> Some (Inl OOB)
                     | Some cs \<Rightarrow> drop_walk h1 v p (Some sl) (next_sybling cs)))))"

definition castle_versions_drop :: "versions_hash \<Rightarrow> version_t \<Rightarrow> (fault + versions_hash) option" where
  "castle_versions_drop h v =
     (case h v of
        None \<Rightarrow> Some (Inl OOB)
      | Some cv \<Rightarrow>
          (case parent_u cv of
             Parent_v _ \<Rightarrow> Some (Inl OOB)
           | Parent None \<Rightarrow> Some (Inl OOB)
           | Parent (Some p) \<Rightarrow>
               (case h p of
                  None \<Rightarrow> Some (Inl OOB)
                | Some cp \<Rightarrow>
                    (case drop_walk h v p None (first_child cp) of
                       None \<Rightarrow> None
                     | Some (Inl f) \<Rightarrow> Some (Inl f)
                     | Some (Inr h1) \<Rightarrow>
                         (case h1 v of
                            None \<Rightarrow> Some (Inl OOB)
                          | Some cv1 \<Rightarrow>
                              Some (Inr (h1(v \<mapsto> cv1\<lparr>next_sybling := None, parent_u := Parent None\<rparr>))))))))"

text \<open>\<^verbatim>\<open>castle_version_delete(v)\<close> for a version that is not NULL: the result is the parent
  (NULL is \<open>None\<close>) and the hash without \<open>v\<close>.\<close>

definition castle_version_delete ::
  "versions_hash \<Rightarrow> version_t \<Rightarrow> (fault + version_t option \<times> versions_hash) option" where
  "castle_version_delete h v =
     (case h v of
        None \<Rightarrow> Some (Inl OOB)
      | Some cv \<Rightarrow>
          if cv_attached cv then Some (Inl BUG)
          else if \<not> cv_inited cv then Some (Inl BUG)
          else
            (case parent_u cv of
               Parent_v _ \<Rightarrow> Some (Inl OOB)
             | Parent par \<Rightarrow>
                 (case castle_versions_drop h v of
                    None \<Rightarrow> None
                  | Some (Inl f) \<Rightarrow> Some (Inl f)
                  | Some (Inr h1) \<Rightarrow> Some (Inr (par, h1(v := None))))))"

text \<open>The \<^verbatim>\<open>while(1)\<close> loop of \<^verbatim>\<open>castle_version_tree_delete\<close>: the result is the value
  of \<^verbatim>\<open>ret\<close> and whether the loop was left through \<^verbatim>\<open>error_out\<close>.\<close>

partial_function (option) tree_delete_loop ::
  "versions_hash \<Rightarrow> version_t \<Rightarrow> version_t \<Rightarrow> (fault + (int \<times> bool) \<times> versions_hash) option" where
  "tree_delete_loop h v cur =
     (case h cur of
        None \<Rightarrow> Some (Inl OOB)
      | Some ccur \<Rightarrow>
          (case first_child ccur of
             None \<Rightarrow>
               (case castle_version_delete h cur of
                  None \<Rightarrow> None
                | Some (Inl f) \<Rightarrow> Some (Inl f)
                | Some (Inr (None, h1)) \<Rightarrow> Some (Inr ((- EINVAL, True), h1))
                | Some (Inr (Some par, h1)) \<Rightarrow>
                    if cur = v then Some (Inr ((0, False), h1))
                    else tree_delete_loop h1 v par)
           | Some c \<Rightarrow> tree_delete_loop h v c))"

definition castle_version_tree_delete ::
  "versions_env \<Rightarrow> version_t \<Rightarrow> versions \<Rightarrow> (fault + int \<times> versions) option" where
  "castle_version_tree_delete env ver s =
     (case castle_versions_hash s ver of
        None \<Rightarrow> Some (Inr (- EINVAL, s))
      | Some v \<Rightarrow>
          if \<not> cv_inited v then Some (Inl BUG)
          else
            (case tree_delete_loop (castle_versions_hash s) ver ver of
               None \<Rightarrow> None
             | Some (Inl f) \<Rightarrow> Some (Inl f)
             | Some (Inr ((ret, error_out), h1)) \<Rightarrow>
                 let s1 = s\<lparr>castle_versions_hash := h1\<rparr> in
                 if error_out then Some (Inr (ret, s1))
                 else
                   (case castle_versions_process env s1 of
                      None \<Rightarrow> None
                    | Some (Inl f) \<Rightarrow> Some (Inl f)
                    | Some (Inr (err, s2)) \<Rightarrow> Some (Inr (ret, s2)))))"

definition castle_version_is_ancestor :: "version_t \<Rightarrow> version_t \<Rightarrow> versions \<Rightarrow> fault + bool" where
  "castle_version_is_ancestor candidate ver s =
     (case castle_versions_hash s ver of
        None \<Rightarrow> Inl BUG
      | Some v \<Rightarrow>
          if \<not> cv_inited v \<or> VERSION_INVAL (o_order v) then Inl BUG
          else
            (case castle_versions_hash s candidate of
               None \<Rightarrow> Inl BUG
             | Some c \<Rightarrow>
                 if \<not> cv_inited c \<or> VERSION_INVAL (o_order c) \<or> VERSION_INVAL (r_order c) then Inl BUG
                 else Inr (o_order v \<ge> o_order c \<and> o_order v \<le> r_order c)))"

subsection \<open>Example registries\<close>

definition env0 :: versions_env where
  "env0 = \<lparr>kmem_cache_alloc_ok = True, castle_sysfs_version_add = (\<lambda>_. 0)\<rparr>"

definition vs_empty :: versions where
  "vs_empty = \<lparr>castle_versions_hash = Map.empty, castle_versions_init_list = [],
     castle_versions_last = INVAL_VERSION, version_cnt = 0\<rparr>"

text \<open>The root with one snapshot, version 1, as two calls leave the registry:
  \<^verbatim>\<open>castle_versions_zero_init\<close>, then \<^verbatim>\<open>castle_version_new\<close> of a snapshot of the root.\<close>

definition cv_root1 :: castle_version where
  "cv_root1 = \<lparr>version = 0, parent_u = Parent None, first_child = Some 1, next_sybling = None,
     o_order = 1, r_order = 2, da_id = INVAL_DA, size_v = 0, cv_inited = True,
     cv_attached = False, cv_snap = False\<rparr>"

definition cv_snap1 :: castle_version where
  "cv_snap1 = \<lparr>version = 1, parent_u = Parent (Some 0), first_child = None, next_sybling = None,
     o_order = 2, r_order = 2, da_id = INVAL_DA, size_v = 0, cv_inited = True,
     cv_attached = False, cv_snap = True\<rparr>"

definition vs_snap1 :: versions where
  "vs_snap1 = \<lparr>castle_versions_hash = [1 \<mapsto> cv_snap1, 0 \<mapsto> cv_root1], castle_versions_init_list = [],
     castle_versions_last = 1, version_cnt = 2\<rparr>"

lemmas v_defs = castle_version_add_def castle_versions_zero_init_def castle_version_new_def
  castle_version_new_create_def castle_versions_process_def castle_versions_insert_def
  read_link_def write_link_def INVAL_VERSION_def VERSION_INVAL_def INVAL_DA_def DA_INVAL_def
  env0_def vs_empty_def Let_def

lemma zero_init_then_new_snapshot:
  "castle_versions_zero_init env0 vs_empty =
     Inr (0, vs_empty\<lparr>castle_versions_hash := [0 \<mapsto> cv_root1\<lparr>first_child := None,
            o_order := INVAL_VERSION, r_order := INVAL_VERSION\<rparr>],
          castle_versions_last := 0, version_cnt := 1\<rparr>) \<and>
   castle_version_new env0 True 0 INVAL_DA 0
     (vs_empty\<lparr>castle_versions_hash := [0 \<mapsto> cv_root1\<lparr>first_child := None,
            o_order := INVAL_VERSION, r_order := INVAL_VERSION\<rparr>],
          castle_versions_last := 0, version_cnt := 1\<rparr>) = Some (Inr (1, vs_snap1))"
  by (simp add: v_defs process_init_list.simps process_dfs.simps insert_walk.simps
      cv_root1_def cv_snap1_def vs_snap1_def)

subsection \<open>The quota of versions\<close>














lemmas del_defs = castle_version_tree_delete_def castle_version_delete_def castle_versions_drop_def
  tree_delete_loop.simps drop_walk.simps

definition cv_root_alone :: castle_version where
  "cv_root_alone = cv_root1\<lparr>first_child := None, o_order := 1, r_order := 1\<rparr>"

lemma tree_delete_snap1:
  "castle_version_tree_delete env0 1 vs_snap1 =
     Some (Inr (0, vs_snap1\<lparr>castle_versions_hash := [0 \<mapsto> cv_root_alone]\<rparr>))"
  by (simp add: del_defs v_defs process_init_list.simps process_dfs.simps vs_snap1_def
      cv_root1_def cv_snap1_def cv_root_alone_def fun_upd_twist)


subsection \<open>Deleting a version tree\<close>





subsection \<open>The version tree\<close>

text \<open>The tree that the \<^verbatim>\<open>first_child\<close> and \<^verbatim>\<open>next_sybling\<close> references of the inited
  versions spell out: \<open>Nd x l r\<close> is the version \<open>x\<close>, the list of its children \<open>l\<close>
  (from its first child on) and the list of the siblings that follow it \<open>r\<close>.\<close>

datatype vt = Tip | Nd version_t vt vt

fun ids :: "vt \<Rightarrow> version_t list" where
  "ids Tip = []"
| "ids (Nd x l r) = x # ids l @ ids r"

fun root_of :: "vt \<Rightarrow> version_t option" where
  "root_of Tip = None"
| "root_of (Nd x l r) = Some x"

text \<open>The hash holds the tree \<open>t\<close>, a list of siblings whose parent is \<open>par\<close>.\<close>

fun repr :: "versions_hash \<Rightarrow> version_t option \<Rightarrow> vt \<Rightarrow> bool" where
  "repr h par Tip = True"
| "repr h par (Nd x l r) =
     ((case h x of
         None \<Rightarrow> False
       | Some cv \<Rightarrow> parent_u cv = Parent par \<and> first_child cv = root_of l \<and>
                    next_sybling cv = root_of r) \<and>
      repr h (Some x) l \<and> repr h par r)"

text \<open>The versions of \<open>t\<close> carry the numbers of a depth-first walk that starts after \<open>k\<close>:
  \<^verbatim>\<open>o_order\<close> is the number of the version, \<^verbatim>\<open>r_order\<close> the number of its last
  descendant.\<close>

fun numbered :: "versions_hash \<Rightarrow> vt \<Rightarrow> nat \<Rightarrow> bool" where
  "numbered h Tip k = True"
| "numbered h (Nd x l r) k =
     ((case h x of
         None \<Rightarrow> False
       | Some cv \<Rightarrow> o_order cv = of_nat (k + 1) \<and> r_order cv = of_nat (k + 1 + length (ids l))) \<and>
      numbered h l (k + 1) \<and> numbered h r (k + 1 + length (ids l)))"

definition strip :: "castle_version \<Rightarrow> castle_version" where
  "strip cv = cv\<lparr>o_order := 0, r_order := 0\<rparr>"

definition stripped :: "versions_hash \<Rightarrow> versions_hash" where
  "stripped h = (\<lambda>x. map_option strip (h x))"

lemma strip_eqD:
  "strip a = strip b \<Longrightarrow>
   parent_u a = parent_u b \<and> first_child a = first_child b \<and> next_sybling a = next_sybling b \<and>
   cv_inited a = cv_inited b \<and> cv_attached a = cv_attached b \<and> version a = version b"
  by (cases a, cases b, simp add: strip_def)

lemma stripped_SomeD:
  "stripped h' = stripped h \<Longrightarrow> h x = Some cv \<Longrightarrow> \<exists>cv'. h' x = Some cv' \<and> strip cv' = strip cv"
  by (drule fun_cong [of _ _ x]) (auto simp add: stripped_def)

lemma stripped_NoneD:
  "stripped h' = stripped h \<Longrightarrow> h x = None \<Longrightarrow> h' x = None"
  by (drule fun_cong [of _ _ x]) (auto simp add: stripped_def)

lemma stripped_upd_o [simp]:
  "h x = Some cv \<Longrightarrow> stripped (h(x \<mapsto> cv\<lparr>o_order := a\<rparr>)) = stripped h"
  "h x = Some cv \<Longrightarrow> stripped (h(x \<mapsto> cv\<lparr>r_order := b\<rparr>)) = stripped h"
  "h x = Some cv \<Longrightarrow> stripped (h(x \<mapsto> cv\<lparr>o_order := a, r_order := b\<rparr>)) = stripped h"
  by (auto simp add: stripped_def strip_def fun_eq_iff)

lemma repr_stripped:
  "stripped h' = stripped h \<Longrightarrow> repr h par t \<Longrightarrow> repr h' par t"
proof (induction t arbitrary: par)
  case Tip
  then show ?case by simp
next
  case (Nd x l r)
  from Nd.prems obtain cv where cv: "h x = Some cv" "parent_u cv = Parent par"
    "first_child cv = root_of l" "next_sybling cv = root_of r"
    and l: "repr h (Some x) l" and r: "repr h par r"
    by (auto split: option.splits)
  from stripped_SomeD [OF Nd.prems(1) cv(1)] obtain cv' where
    cv': "h' x = Some cv'" "strip cv' = strip cv" by blast
  from strip_eqD [OF cv'(2)] cv cv' Nd.IH(1) [OF Nd.prems(1) l] Nd.IH(2) [OF Nd.prems(1) r]
  show ?case by simp
qed

lemma repr_cong:
  "\<forall>x\<in>set (ids t). h' x = h x \<Longrightarrow> repr h' par t = repr h par t"
  by (induction t arbitrary: par) auto

lemma numbered_cong:
  "\<forall>x\<in>set (ids t). h' x = h x \<Longrightarrow> numbered h' t k = numbered h t k"
  by (induction t arbitrary: k) auto

lemma process_dfs_down_leaf:
  assumes "h x = Some cv" "first_child cv = None"
  shows "process_dfs h (Some x) ident True =
         (let h1 = h(x \<mapsto> cv\<lparr>o_order := ident + 1, r_order := ident + 1\<rparr>) in
          if next_sybling cv \<noteq> None then process_dfs h1 (next_sybling cv) (ident + 1) True
          else (case parent_u cv of Parent_v _ \<Rightarrow> Some (Inl OOB)
                | Parent par \<Rightarrow> process_dfs h1 par (ident + 1) False))"
  using assms by (subst process_dfs.simps) (auto simp add: Let_def split: parent_link.split)

lemma process_dfs_down_inner:
  assumes "h x = Some cv" "first_child cv \<noteq> None"
  shows "process_dfs h (Some x) ident True =
         process_dfs (h(x \<mapsto> cv\<lparr>o_order := ident + 1\<rparr>)) (first_child cv) (ident + 1) True"
  using assms by (subst process_dfs.simps) (auto simp add: Let_def split: parent_link.split)

lemma process_dfs_up:
  assumes "h x = Some cv"
  shows "process_dfs h (Some x) ident False =
         (let h1 = h(x \<mapsto> cv\<lparr>r_order := ident\<rparr>) in
          if next_sybling cv \<noteq> None then process_dfs h1 (next_sybling cv) ident True
          else (case parent_u cv of Parent_v _ \<Rightarrow> Some (Inl OOB)
                | Parent par \<Rightarrow> process_dfs h1 par ident False))"
  using assms by (subst process_dfs.simps) (auto simp add: Let_def split: parent_link.split)

lemma root_of_None [simp]: "(root_of t = None) = (t = Tip)"
  by (cases t) auto

text \<open>The depth-first walk of a list of siblings: it numbers the versions of the list and
  of their subtrees, changes nothing else, and goes on at the parent, on the way up.\<close>

lemma process_dfs_subtree:
  "repr h par t \<Longrightarrow> distinct (ids t) \<Longrightarrow> t \<noteq> Tip \<Longrightarrow>
   \<exists>h'. process_dfs h (root_of t) (of_nat k) True =
          process_dfs h' par (of_nat (k + length (ids t))) False \<and>
        stripped h' = stripped h \<and> (\<forall>x. x \<notin> set (ids t) \<longrightarrow> h' x = h x) \<and> numbered h' t k"
proof (induction t arbitrary: h par k)
  case Tip
  then show ?case by simp
next
  case (Nd x l r)
  from Nd.prems obtain cv where cv: "h x = Some cv" "parent_u cv = Parent par"
    "first_child cv = root_of l" "next_sybling cv = root_of r"
    and l: "repr h (Some x) l" and r: "repr h par r"
    by (auto split: option.splits)
  from Nd.prems have d: "x \<notin> set (ids l)" "x \<notin> set (ids r)" "distinct (ids l)" "distinct (ids r)"
    "set (ids l) \<inter> set (ids r) = {}" by auto
  show ?case
  proof (cases "l = Tip")
    case True
    define h1 where "h1 = h(x \<mapsto> cv\<lparr>o_order := of_nat (k + 1), r_order := of_nat (k + 1)\<rparr>)"
    have s1: "stripped h1 = stripped h" unfolding h1_def using cv(1) by simp
    have x1: "h1 x = Some (cv\<lparr>o_order := of_nat (k + 1), r_order := of_nat (k + 1)\<rparr>)"
      by (simp add: h1_def)
    have f1: "\<forall>y. y \<noteq> x \<longrightarrow> h1 y = h y" by (simp add: h1_def)
    show ?thesis
    proof (cases "r = Tip")
      case rT: True
      have "process_dfs h (Some x) (of_nat k) True = process_dfs h1 par (of_nat (k + 1)) False"
        using process_dfs_down_leaf [of h x cv "of_nat k"] cv True rT by (simp add: h1_def Let_def add.commute)
      with s1 x1 f1 True rT show ?thesis
        by (intro exI [of _ h1]) simp
    next
      case rN: False
      have step: "process_dfs h (Some x) (of_nat k) True =
                  process_dfs h1 (root_of r) (of_nat (k + 1)) True"
        using process_dfs_down_leaf [of h x cv "of_nat k"] cv True rN by (simp add: h1_def Let_def add.commute)
      have "repr h1 par r" using repr_stripped [OF s1 r] .
      from Nd.IH(2) [OF this d(4) rN, of "k + 1"] obtain h' where
        h': "process_dfs h1 (root_of r) (of_nat (k + 1)) True =
             process_dfs h' par (of_nat (k + 1 + length (ids r))) False"
          "stripped h' = stripped h1" "\<forall>y. y \<notin> set (ids r) \<longrightarrow> h' y = h1 y" "numbered h' r (k + 1)"
        by blast
      have "h' x = h1 x" using h'(3) d(2) by simp
      with step h' s1 x1 f1 True show ?thesis
        by (intro exI [of _ h']) (simp add: add.commute add.left_commute)
    qed
  next
    case False
    define cv1 where "cv1 = cv\<lparr>o_order := of_nat (k + 1)\<rparr>"
    have cv1: "parent_u cv1 = Parent par" "next_sybling cv1 = root_of r"
      "o_order cv1 = of_nat (k + 1)"
      using cv by (simp_all add: cv1_def)
    define h1 where "h1 = h(x \<mapsto> cv1)"
    have s1: "stripped h1 = stripped h" unfolding h1_def cv1_def using cv(1) by simp
    have f1: "\<forall>y. y \<noteq> x \<longrightarrow> h1 y = h y" by (simp add: h1_def)
    have step1: "process_dfs h (Some x) (of_nat k) True =
                 process_dfs h1 (root_of l) (of_nat (k + 1)) True"
      using process_dfs_down_inner [of h x cv "of_nat k"] cv False
      by (simp add: h1_def cv1_def add.commute)
    have "repr h1 (Some x) l" using repr_stripped [OF s1 l] .
    from Nd.IH(1) [OF this d(3) False, of "k + 1"] obtain h2 where
      h2: "process_dfs h1 (root_of l) (of_nat (k + 1)) True =
           process_dfs h2 (Some x) (of_nat (k + 1 + length (ids l))) False"
        "stripped h2 = stripped h1" "\<forall>y. y \<notin> set (ids l) \<longrightarrow> h2 y = h1 y" "numbered h2 l (k + 1)"
      by blast
    have x2: "h2 x = Some cv1" using h2(3) d(1) by (simp add: h1_def)
    define h3 where "h3 = h2(x \<mapsto> cv1\<lparr>r_order := of_nat (k + 1 + length (ids l))\<rparr>)"
    have s3: "stripped h3 = stripped h"
    proof -
      have "stripped h3 = stripped h2"
        unfolding h3_def
        using stripped_upd_o(2) [of h2 x cv1 "of_nat (k + 1 + length (ids l))"] x2
        by simp
      with h2(2) s1 show ?thesis by simp
    qed
    have x3: "h3 x = Some (cv1\<lparr>r_order := of_nat (k + 1 + length (ids l))\<rparr>)"
      by (simp add: h3_def)
    have f3: "\<forall>y. y \<notin> set (ids (Nd x l r)) \<longrightarrow> h3 y = h y"
      using h2(3) f1 by (simp add: h3_def)
    have n3: "numbered h3 l (k + 1)"
      using numbered_cong [of l h3 h2 "k + 1"] d(1) h2(4) by (simp add: h3_def)
    show ?thesis
    proof (cases "r = Tip")
      case rT: True
      have "process_dfs h2 (Some x) (of_nat (k + 1 + length (ids l))) False =
            process_dfs h3 par (of_nat (k + 1 + length (ids l))) False"
        using process_dfs_up [of h2 x cv1 "of_nat (k + 1 + length (ids l))"] x2 cv1 rT
        by (simp add: h3_def Let_def add.commute)
      with step1 h2(1) s3 x3 f3 n3 rT cv1 show ?thesis
        by (intro exI [of _ h3]) (simp add: add.commute add.left_commute)
    next
      case rN: False
      have step3: "process_dfs h2 (Some x) (of_nat (k + 1 + length (ids l))) False =
            process_dfs h3 (root_of r) (of_nat (k + 1 + length (ids l))) True"
        using process_dfs_up [of h2 x cv1 "of_nat (k + 1 + length (ids l))"] x2 cv1 rN
        by (simp add: h3_def Let_def add.commute)
      have "repr h3 par r" using repr_stripped [OF s3 r] .
      from Nd.IH(2) [OF this d(4) rN, of "k + 1 + length (ids l)"] obtain h' where
        h': "process_dfs h3 (root_of r) (of_nat (k + 1 + length (ids l))) True =
             process_dfs h' par (of_nat (k + 1 + length (ids l) + length (ids r))) False"
          "stripped h' = stripped h3" "\<forall>y. y \<notin> set (ids r) \<longrightarrow> h' y = h3 y"
          "numbered h' r (k + 1 + length (ids l))"
        by blast
      have x': "h' x = h3 x" using h'(3) d(2) by simp
      have nl: "numbered h' l (k + 1)"
        using numbered_cong [of l h' h3 "k + 1"] h'(3) d(5) n3 by auto
      have f': "\<forall>y. y \<notin> set (ids (Nd x l r)) \<longrightarrow> h' y = h y"
        using h'(3) f3 by simp
      from step1 h2(1) step3 h'(1) h'(2) s3 x' x3 nl h'(4) f' cv1 show ?thesis
        by (intro exI [of _ h']) (simp add: add.commute add.left_commute)
    qed
  qed
qed


lemma unat_of_nat_version: "n < 2 ^ 32 \<Longrightarrow> unat (of_nat n :: version_t) = n"
  by (simp add: unat_of_nat take_bit_nat_eq_self)

definition below_parent :: "versions_hash \<Rightarrow> castle_version \<Rightarrow> bool" where
  "below_parent h cv =
     (case parent_u cv of
        Parent (Some p) \<Rightarrow>
          (case h p of None \<Rightarrow> False
           | Some cp \<Rightarrow> o_order cp < o_order cv \<and> o_order cv \<le> r_order cp)
      | _ \<Rightarrow> False)"

lemma numbered_parent_order:
  "repr h par t \<Longrightarrow> numbered h t k \<Longrightarrow> k + length (ids t) < 2 ^ 32 \<Longrightarrow> c \<in> set (ids t) \<Longrightarrow>
   \<exists>cc. h c = Some cc \<and>
     ((parent_u cc = Parent par \<and> k < unat (o_order cc) \<and> unat (o_order cc) \<le> k + length (ids t)) \<or>
      below_parent h cc)"
proof (induction t arbitrary: par k)
  case Tip
  then show ?case by simp
next
  case (Nd x l r)
  from Nd.prems(1) obtain cv where cv: "h x = Some cv" "parent_u cv = Parent par"
    and l: "repr h (Some x) l" and r: "repr h par r"
    by (auto split: option.splits)
  from Nd.prems(2) cv have n: "o_order cv = of_nat (k + 1)"
    "r_order cv = of_nat (k + 1 + length (ids l))"
    and nl: "numbered h l (k + 1)" and nr: "numbered h r (k + 1 + length (ids l))"
    by auto
  from Nd.prems(3) have b: "k + 1 < 2 ^ 32" "k + 1 + length (ids l) < 2 ^ 32"
    "k + 1 + length (ids l) + length (ids r) < 2 ^ 32" by auto
  have uo: "unat (o_order cv) = k + 1" using n(1) unat_of_nat_version [OF b(1)] by simp
  have ur: "unat (r_order cv) = k + 1 + length (ids l)"
    using n(2) unat_of_nat_version [OF b(2)] by simp
  from Nd.prems(4) consider "c = x" | "c \<in> set (ids l)" | "c \<in> set (ids r)" by auto
  then show ?case
  proof cases
    case 1
    with cv uo show ?thesis by simp
  next
    case 2
    from Nd.IH(1) [OF l nl b(2) 2] obtain cc where cc: "h c = Some cc"
      "(parent_u cc = Parent (Some x) \<and> k + 1 < unat (o_order cc) \<and>
        unat (o_order cc) \<le> k + 1 + length (ids l)) \<or> below_parent h cc" by blast
    from cc(2) have "below_parent h cc"
    proof
      assume a: "parent_u cc = Parent (Some x) \<and> k + 1 < unat (o_order cc) \<and>
        unat (o_order cc) \<le> k + 1 + length (ids l)"
      with cv uo ur show ?thesis
        by (simp add: below_parent_def word_less_nat_alt word_le_nat_alt)
    qed
    with cc(1) show ?thesis by blast
  next
    case 3
    from Nd.IH(2) [OF r nr b(3) 3] obtain cc where cc: "h c = Some cc"
      "(parent_u cc = Parent par \<and> k + 1 + length (ids l) < unat (o_order cc) \<and>
        unat (o_order cc) \<le> k + 1 + length (ids l) + length (ids r)) \<or> below_parent h cc"
      by blast
    then show ?thesis by auto
  qed
qed

text \<open>Under the root, every version of the tree is numbered after its parent and no later
  than the parent's last descendant.\<close>

lemma numbered_below_parent:
  assumes "repr h par (Nd x l Tip)" "numbered h (Nd x l Tip) 0"
    "length (ids (Nd x l Tip)) < 2 ^ 32" "c \<in> set (ids l)" "h c = Some cc"
  shows "below_parent h cc"
proof -
  from assms(1) obtain cv where cv: "h x = Some cv" and l: "repr h (Some x) l"
    by (auto split: option.splits)
  from assms(2) cv have n: "o_order cv = of_nat 1" "r_order cv = of_nat (1 + length (ids l))"
    and nl: "numbered h l 1" by auto
  from assms(3) have b: "1 + length (ids l) < 2 ^ 32" by simp
  have uo: "unat (o_order cv) = 1" using n(1) by simp
  have ur: "unat (r_order cv) = 1 + length (ids l)"
    using n(2) unat_of_nat_version [OF b] by simp
  from numbered_parent_order [OF l nl b assms(4)] assms(5)
  have "(parent_u cc = Parent (Some x) \<and> 1 < unat (o_order cc) \<and>
         unat (o_order cc) \<le> 1 + length (ids l)) \<or> below_parent h cc" by auto
  then show ?thesis
  proof
    assume "parent_u cc = Parent (Some x) \<and> 1 < unat (o_order cc) \<and>
         unat (o_order cc) \<le> 1 + length (ids l)"
    with cv uo ur show ?thesis
      by (simp add: below_parent_def word_less_nat_alt word_le_nat_alt)
  qed
qed

fun owner :: "link \<Rightarrow> version_t" where
  "owner (First_child_of p) = p"
| "owner (Next_sybling_of p) = p"

fun get_link :: "link \<Rightarrow> castle_version \<Rightarrow> version_t option" where
  "get_link (First_child_of p) c = first_child c"
| "get_link (Next_sybling_of p) c = next_sybling c"

fun set_link :: "link \<Rightarrow> version_t option \<Rightarrow> castle_version \<Rightarrow> castle_version" where
  "set_link (First_child_of p) x c = c\<lparr>first_child := x\<rparr>"
| "set_link (Next_sybling_of p) x c = c\<lparr>next_sybling := x\<rparr>"

text \<open>The children of \<open>p\<close> in the tree \<open>t\<close>.\<close>

fun kids :: "version_t \<Rightarrow> vt \<Rightarrow> vt" where
  "kids p Tip = Tip"
| "kids p (Nd x l r) = (if x = p then l else if p \<in> set (ids l) then kids p l else kids p r)"

text \<open>The hash after \<^verbatim>\<open>castle_versions_insert\<close> has written \<open>v\<close> into the place \<open>L'\<close>, before
  the sibling \<open>sl\<close>.\<close>

definition ins_result ::
  "versions_hash \<Rightarrow> version_t \<Rightarrow> castle_version \<Rightarrow> link \<Rightarrow> version_t option \<Rightarrow> versions_hash" where
  "ins_result g v cv L' sl =
     (g(v \<mapsto> cv\<lparr>next_sybling := sl\<rparr>))(owner L' \<mapsto> set_link L' (Some v) (the (g (owner L'))))"

lemma read_link_alt:
  "read_link h l = (case h (owner l) of None \<Rightarrow> Inl OOB | Some c \<Rightarrow> Inr (get_link l c))"
  by (cases l) (simp_all add: read_link_def split: option.splits)

lemma write_link_alt:
  "write_link h l x = (case h (owner l) of None \<Rightarrow> Inl OOB | Some c \<Rightarrow> Inr (h(owner l \<mapsto> set_link l x c)))"
  by (cases l) (simp_all add: write_link_def split: option.splits)

lemma get_set_link [simp]: "get_link L (set_link L x c) = x"
  by (cases L) simp_all

lemma set_link_fields:
  "parent_u (set_link L x c) = parent_u c"
  "cv_inited (set_link L x c) = cv_inited c"
  "cv_attached (set_link L x c) = cv_attached c"
  "version (set_link L x c) = version c"
  by (cases L; simp)+

lemma set_link_next [simp]:
  "set_link (Next_sybling_of s) x c = c\<lparr>next_sybling := x\<rparr>"
  by simp

lemma repr_dom: "repr h par t \<Longrightarrow> x \<in> set (ids t) \<Longrightarrow> h x \<noteq> None"
  by (induction t arbitrary: par) (auto split: option.splits)

lemma insert_walk_stop:
  "read_link g L = Inr None \<Longrightarrow> insert_walk g L ver = Some (Inr (L, None))"
  by (subst insert_walk.simps) simp

lemma insert_walk_here:
  "read_link g L = Inr (Some s) \<Longrightarrow> g s = Some cs \<Longrightarrow> \<not> version cs > ver \<Longrightarrow>
   insert_walk g L ver = Some (Inr (L, Some s))"
  by (subst insert_walk.simps) simp

lemma insert_walk_on:
  "read_link g L = Inr (Some s) \<Longrightarrow> g s = Some cs \<Longrightarrow> version cs > ver \<Longrightarrow>
   insert_walk g L ver = insert_walk g (Next_sybling_of s) ver"
  by (subst insert_walk.simps) simp

text \<open>The walk of \<^verbatim>\<open>castle_versions_insert\<close> along a list of siblings ends, and writing the
  new version into the place it ends at gives the list with the new version in it.\<close>

lemma insert_chain:
  "repr g par c \<Longrightarrow> distinct (ids c) \<Longrightarrow> v \<notin> set (ids c) \<Longrightarrow> owner L \<notin> set (ids c) \<Longrightarrow>
   owner L \<noteq> v \<Longrightarrow> g v = Some cv \<Longrightarrow> parent_u cv = Parent par \<Longrightarrow> first_child cv = None \<Longrightarrow>
   read_link g L = Inr (root_of c) \<Longrightarrow>
   \<exists>L' sl c'. insert_walk g L ver = Some (Inr (L', sl)) \<and>
     owner L' \<in> insert (owner L) (set (ids c)) \<and> (owner L' = owner L \<longrightarrow> L' = L) \<and>
     repr (ins_result g v cv L' sl) par c' \<and> set (ids c') = insert v (set (ids c)) \<and>
     distinct (ids c') \<and> read_link (ins_result g v cv L' sl) L = Inr (root_of c')"
proof (induction c arbitrary: L)
  case Tip
  from Tip.prems(9) have w: "insert_walk g L ver = Some (Inr (L, None))"
    by (simp add: insert_walk_stop)
  from Tip.prems(9) obtain co where co: "g (owner L) = Some co"
    by (auto simp add: read_link_alt split: option.splits)
  let ?g2 = "ins_result g v cv L None"
  have v2: "?g2 v = Some (cv\<lparr>next_sybling := None\<rparr>)"
    using Tip.prems(5) by (simp add: ins_result_def)
  have "repr ?g2 par (Nd v Tip Tip)"
    using v2 Tip.prems(7,8) by simp
  moreover have "read_link ?g2 L = Inr (root_of (Nd v Tip Tip))"
    using co by (simp add: read_link_alt ins_result_def)
  ultimately show ?case using w
    by (intro exI [of _ L] exI [of _ None] exI [of _ "Nd v Tip Tip"]) simp
next
  case (Nd s l r)
  from Nd.prems(1) obtain cs where cs: "g s = Some cs" "parent_u cs = Parent par"
    "first_child cs = root_of l" "next_sybling cs = root_of r"
    and l: "repr g (Some s) l" and r: "repr g par r"
    by (auto split: option.splits)
  from Nd.prems(2) have d: "s \<notin> set (ids l)" "s \<notin> set (ids r)" "distinct (ids l)"
    "distinct (ids r)" "set (ids l) \<inter> set (ids r) = {}" by auto
  from Nd.prems(3) have vn: "v \<noteq> s" "v \<notin> set (ids l)" "v \<notin> set (ids r)" by auto
  from Nd.prems(4) have on: "owner L \<noteq> s" "owner L \<notin> set (ids l)" "owner L \<notin> set (ids r)"
    by auto
  from Nd.prems(9) have rl: "read_link g L = Inr (Some s)" by simp
  from rl obtain co where co: "g (owner L) = Some co"
    by (auto simp add: read_link_alt split: option.splits)
  show ?case
  proof (cases "version cs > ver")
    case False
    have w: "insert_walk g L ver = Some (Inr (L, Some s))"
      using insert_walk_here [OF rl cs(1) False] .
    let ?g2 = "ins_result g v cv L (Some s)"
    have v2: "?g2 v = Some (cv\<lparr>next_sybling := Some s\<rparr>)"
      using Nd.prems(5) by (simp add: ins_result_def)
    have "\<forall>x\<in>set (ids (Nd s l r)). ?g2 x = g x"
      using Nd.prems(3,4) by (auto simp add: ins_result_def)
    from repr_cong [OF this, of par] Nd.prems(1) have "repr ?g2 par (Nd s l r)" by simp
    with v2 Nd.prems(7,8) have "repr ?g2 par (Nd v Tip (Nd s l r))" by simp
    moreover have "read_link ?g2 L = Inr (root_of (Nd v Tip (Nd s l r)))"
      using co by (simp add: read_link_alt ins_result_def)
    moreover have "set (ids (Nd v Tip (Nd s l r))) = insert v (set (ids (Nd s l r)))" by simp
    moreover have "distinct (ids (Nd v Tip (Nd s l r)))" using Nd.prems(2,3) by simp
    ultimately show ?thesis using w
      by (intro exI [of _ L] exI [of _ "Some s"] exI [of _ "Nd v Tip (Nd s l r)"]) blast
  next
    case True
    have w: "insert_walk g L ver = insert_walk g (Next_sybling_of s) ver"
      using insert_walk_on [OF rl cs(1) True] .
    have rl': "read_link g (Next_sybling_of s) = Inr (root_of r)"
      using cs by (simp add: read_link_def)
    from Nd.IH(2) [OF r d(4) vn(3) _ _ Nd.prems(6,7,8), of "Next_sybling_of s"] d(2) vn(1) rl'
    obtain L' sl c' where
      ih: "insert_walk g (Next_sybling_of s) ver = Some (Inr (L', sl))"
        "owner L' \<in> insert s (set (ids r))" "owner L' = s \<longrightarrow> L' = Next_sybling_of s"
        "repr (ins_result g v cv L' sl) par c'" "set (ids c') = insert v (set (ids r))"
        "distinct (ids c')" "read_link (ins_result g v cv L' sl) (Next_sybling_of s) = Inr (root_of c')"
      by auto
    let ?g2 = "ins_result g v cv L' sl"
    have ol: "owner L' \<noteq> owner L" using ih(2) on by auto
    have s2: "\<exists>cs2. ?g2 s = Some cs2 \<and> parent_u cs2 = Parent par \<and> first_child cs2 = root_of l \<and>
                next_sybling cs2 = root_of c'"
    proof (cases "owner L' = s")
      case True
      with ih(3) have "L' = Next_sybling_of s" by simp
      with cs ih(7) show ?thesis by (simp add: ins_result_def read_link_def)
    next
      case False
      with vn(1) have "?g2 s = g s" by (simp add: ins_result_def)
      with cs ih(7) show ?thesis by (simp add: read_link_def)
    qed
    have "\<forall>x\<in>set (ids l). ?g2 x = g x"
      using vn(2) ih(2) d(1,5) by (auto simp add: ins_result_def)
    from repr_cong [OF this, of "Some s"] l have l2: "repr ?g2 (Some s) l" by simp
    have rep: "repr ?g2 par (Nd s l c')" using s2 l2 ih(4) by auto
    have "?g2 (owner L) = g (owner L)" using ol Nd.prems(5) by (simp add: ins_result_def)
    with rl have rl2: "read_link ?g2 L = Inr (root_of (Nd s l c'))"
      by (simp add: read_link_alt)
    have i: "set (ids (Nd s l c')) = insert v (set (ids (Nd s l r)))" using ih(5) by auto
    have di: "distinct (ids (Nd s l c'))" using ih(5,6) d vn by auto
    have o1: "owner L' \<in> insert (owner L) (set (ids (Nd s l r)))" using ih(2) by auto
    from w ih(1) o1 ol rep i di rl2 show ?thesis
      by (intro exI [of _ L'] exI [of _ sl] exI [of _ "Nd s l c'"]) simp
  qed
qed

lemma kids_subset: "set (ids (kids p t)) \<subseteq> set (ids t)"
  by (induction t) auto

lemma kids_repr:
  "repr h par t \<Longrightarrow> p \<in> set (ids t) \<Longrightarrow>
   repr h (Some p) (kids p t) \<and> (\<exists>cp. h p = Some cp \<and> first_child cp = root_of (kids p t))"
  by (induction t arbitrary: par) (auto split: option.splits)

lemma kids_distinct:
  "distinct (ids t) \<Longrightarrow> p \<in> set (ids t) \<Longrightarrow>
   distinct (ids (kids p t)) \<and> p \<notin> set (ids (kids p t))"
proof (induction t)
  case Tip
  then show ?case by simp
next
  case (Nd x l r)
  then show ?case using kids_subset [of p l] kids_subset [of p r] by auto
qed


lemma repr_shape:
  "\<forall>x\<in>set (ids t). \<forall>c. h x = Some c \<longrightarrow>
     (\<exists>c'. h' x = Some c' \<and> parent_u c' = parent_u c \<and> first_child c' = first_child c \<and>
           next_sybling c' = next_sybling c) \<Longrightarrow>
   repr h par t \<Longrightarrow> repr h' par t"
proof (induction t arbitrary: par)
  case Tip
  then show ?case by simp
next
  case (Nd x l r)
  from Nd.prems(2) obtain cv where cv: "h x = Some cv" "parent_u cv = Parent par"
    "first_child cv = root_of l" "next_sybling cv = root_of r"
    and l: "repr h (Some x) l" and r: "repr h par r"
    by (auto split: option.splits)
  from Nd.prems(1) cv(1) obtain c' where c': "h' x = Some c'" "parent_u c' = parent_u cv"
    "first_child c' = first_child cv" "next_sybling c' = next_sybling cv" by auto
  have "repr h' (Some x) l" using Nd.IH(1) [OF _ l] Nd.prems(1) by simp
  moreover have "repr h' par r" using Nd.IH(2) [OF _ r] Nd.prems(1) by simp
  ultimately show ?case using c' cv by simp
qed

text \<open>The tree after the children of \<open>p\<close>, the versions \<open>C\<close>, have become the list \<open>c'\<close>
  of the versions \<open>C'\<close>, with nothing else changed.\<close>

lemma graft_tree:
  assumes frame: "\<forall>x. x \<notin> insert p (C \<union> C') \<longrightarrow> g2 x = g x"
    and gp: "g p = Some cp" "g2 p = Some cp2" "parent_u cp2 = parent_u cp"
      "next_sybling cp2 = next_sybling cp" "first_child cp2 = root_of c'"
    and c': "repr g2 (Some p) c'" "set (ids c') = C'" "distinct (ids c')"
  shows "repr g par t \<Longrightarrow> distinct (ids t) \<Longrightarrow> C' \<inter> (set (ids t) - C) = {} \<Longrightarrow>
     (p \<in> set (ids t) \<longrightarrow> set (ids (kids p t)) = C) \<Longrightarrow>
     (p \<notin> set (ids t) \<longrightarrow> set (ids t) \<inter> C = {}) \<Longrightarrow>
     \<exists>t'. repr g2 par t' \<and> root_of t' = root_of t \<and>
          set (ids t') = (if p \<in> set (ids t) then (set (ids t) - C) \<union> C' else set (ids t)) \<and>
          distinct (ids t') \<and> (\<forall>x l. t = Nd x l Tip \<longrightarrow> (\<exists>l'. t' = Nd x l' Tip))"
proof (induction t arbitrary: par)
  case Tip
  then show ?case by (intro exI [of _ Tip]) simp
next
  case (Nd x l r)
  from Nd.prems(1) obtain cv where cv: "g x = Some cv" "parent_u cv = Parent par"
    "first_child cv = root_of l" "next_sybling cv = root_of r"
    and l: "repr g (Some x) l" and r: "repr g par r"
    by (auto split: option.splits)
  from Nd.prems(2) have d: "x \<notin> set (ids l)" "x \<notin> set (ids r)" "distinct (ids l)"
    "distinct (ids r)" "set (ids l) \<inter> set (ids r) = {}" by auto
  from Nd.prems(3) have n: "C' \<inter> (set (ids l) - C) = {}" "C' \<inter> (set (ids r) - C) = {}"
    "x \<in> C' \<longrightarrow> x \<in> C" by auto
  show ?case
  proof (cases "p \<in> set (ids (Nd x l r))")
    case False
    with Nd.prems(5) have "set (ids (Nd x l r)) \<inter> C = {}" by simp
    with False Nd.prems(3) have "\<forall>y\<in>set (ids (Nd x l r)). y \<notin> insert p (C \<union> C')" by auto
    with frame have "\<forall>y\<in>set (ids (Nd x l r)). g2 y = g y" by blast
    from repr_cong [OF this, of par] Nd.prems(1) have "repr g2 par (Nd x l r)" by simp
    with False Nd.prems(2) show ?thesis by (intro exI [of _ "Nd x l r"]) simp
  next
    case True
    with Nd.prems(4) have C: "set (ids (kids p (Nd x l r))) = C" by blast
    from True consider "x = p" | "x \<noteq> p" "p \<in> set (ids l)" | "x \<noteq> p" "p \<notin> set (ids l)" "p \<in> set (ids r)"
      by auto
    then show ?thesis
    proof cases
      case 1
      with C have Cl: "set (ids l) = C" by simp
      have "\<forall>y\<in>set (ids r). y \<notin> insert p (C \<union> C')" using d n 1 Cl by auto
      with frame have "\<forall>y\<in>set (ids r). g2 y = g y" by blast
      from repr_cong [OF this, of par] r have r2: "repr g2 par r" by simp
      have "repr g2 par (Nd x c' r)" using 1 gp cv c'(1) r2 by simp
      moreover have "set (ids (Nd x c' r)) = (set (ids (Nd x l r)) - C) \<union> C'"
        using c'(2) Cl d by auto
      moreover have "distinct (ids (Nd x c' r))" using c'(2,3) Cl d n by auto
      ultimately show ?thesis using True by (intro exI [of _ "Nd x c' r"]) simp
    next
      case 2
      with C have Cl: "set (ids (kids p l)) = C" by simp
      with kids_subset [of p l] have Csub: "C \<subseteq> set (ids l)" by simp
      from Nd.IH(1) [OF l d(3) n(1)] 2 Cl obtain l' where
        l': "repr g2 (Some x) l'" "root_of l' = root_of l" "set (ids l') = (set (ids l) - C) \<union> C'"
          "distinct (ids l')" by auto
      have "\<forall>y\<in>set (ids r). y \<notin> insert p (C \<union> C')" using d n 2 Csub by auto
      with frame have "\<forall>y\<in>set (ids r). g2 y = g y" by blast
      from repr_cong [OF this, of par] r have r2: "repr g2 par r" by simp
      have "x \<notin> insert p (C \<union> C')" using 2 n d Csub by auto
      with frame have "g2 x = g x" by blast
      with cv l' r2 have "repr g2 par (Nd x l' r)" by simp
      moreover have "set (ids (Nd x l' r)) = (set (ids (Nd x l r)) - C) \<union> C'"
        using l'(3) d Csub by auto
      moreover have "distinct (ids (Nd x l' r))" using l'(3,4) d n Csub by auto
      ultimately show ?thesis using True by (intro exI [of _ "Nd x l' r"]) simp
    next
      case 3
      with C have Cr: "set (ids (kids p r)) = C" by simp
      with kids_subset [of p r] have Csub: "C \<subseteq> set (ids r)" by simp
      from Nd.IH(2) [OF r d(4) n(2)] 3 Cr obtain r' where
        r': "repr g2 par r'" "root_of r' = root_of r" "set (ids r') = (set (ids r) - C) \<union> C'"
          "distinct (ids r')" by auto
      have "\<forall>y\<in>set (ids l). y \<notin> insert p (C \<union> C')" using d n 3 Csub by auto
      with frame have "\<forall>y\<in>set (ids l). g2 y = g y" by blast
      from repr_cong [OF this, of "Some x"] l have l2: "repr g2 (Some x) l" by simp
      have "x \<notin> insert p (C \<union> C')" using 3 n d Csub by auto
      with frame have "g2 x = g x" by blast
      with cv r' l2 have "repr g2 par (Nd x l r')" by simp
      moreover have "set (ids (Nd x l r')) = (set (ids (Nd x l r)) - C) \<union> C'"
        using r'(3) d Csub by auto
      moreover have "distinct (ids (Nd x l r'))" using r'(3,4) d n Csub by auto
      moreover have "r \<noteq> Tip" using 3 by auto
      ultimately show ?thesis using True by (intro exI [of _ "Nd x l r'"]) simp
    qed
  qed
qed

subsection \<open>The invariant of the registry\<close>

text \<open>The inited versions are the versions of one tree, whose root is version 0; a version
  that is not inited has no child; and the invalid version is not in the hash.\<close>

definition tree_inv :: "versions_hash \<Rightarrow> vt \<Rightarrow> bool" where
  "tree_inv h t =
     (repr h None t \<and> distinct (ids t) \<and>
      (\<forall>v cv. h v = Some cv \<longrightarrow>
         (cv_inited cv = (v \<in> set (ids t))) \<and> (\<not> cv_inited cv \<longrightarrow> first_child cv = None)) \<and>
      h INVAL_VERSION = None)"

definition registry_inv :: "versions_hash \<Rightarrow> bool" where
  "registry_inv h = (\<exists>l. tree_inv h (Nd 0 l Tip))"

lemma castle_versions_insert_result:
  assumes "h v = Some cv" "cvp = cv\<lparr>parent_u := Parent (Some p)\<rparr>"
    "insert_walk (h(v \<mapsto> cvp)) (First_child_of p) (version cv) = Some (Inr (L', sl))"
    "owner L' \<noteq> v" "h (owner L') = Some co"
  shows "castle_versions_insert h p v = Some (Inr (ins_result (h(v \<mapsto> cvp)) v cvp L' sl))"
  using assms
  by (simp add: castle_versions_insert_def write_link_alt ins_result_def Let_def)

lemma insert_step:
  assumes inv: "tree_inv h (Nd 0 l Tip)" and v: "h v = Some cv" "\<not> cv_inited cv"
    and p: "h pv = Some cp" "cv_inited cp"
    and ins: "castle_versions_insert h pv v = Some (Inr h1)" and v1: "h1 v = Some cv1"
  shows "\<exists>l'. tree_inv (h1(v \<mapsto> cv1\<lparr>cv_inited := True\<rparr>)) (Nd 0 l' Tip)"
proof -
  let ?t = "Nd 0 l Tip"
  from inv have rep: "repr h None ?t" and dis: "distinct (ids ?t)"
    and fl: "\<And>x c. h x = Some c \<Longrightarrow> cv_inited c = (x \<in> set (ids ?t))"
    and lf: "\<And>x c. h x = Some c \<Longrightarrow> \<not> cv_inited c \<Longrightarrow> first_child c = None"
    and iv: "h INVAL_VERSION = None"
    unfolding tree_inv_def by blast+
  from fl [OF v(1)] v(2) have vt: "v \<notin> set (ids ?t)" by simp
  from fl [OF p(1)] p(2) have pt: "pv \<in> set (ids ?t)" by simp
  from vt pt have vp: "v \<noteq> pv" by auto
  define cvp where "cvp = cv\<lparr>parent_u := Parent (Some pv)\<rparr>"
  define g where "g = h(v \<mapsto> cvp)"
  have gx: "\<forall>x. x \<noteq> v \<longrightarrow> g x = h x" by (simp add: g_def)
  have gv: "g v = Some cvp" by (simp add: g_def)
  have cvp: "parent_u cvp = Parent (Some pv)" "first_child cvp = None" "version cvp = version cv"
    "cv_inited cvp = False"
    using lf [OF v] v(2) by (simp_all add: cvp_def)
  have "\<forall>x\<in>set (ids ?t). g x = h x" using vt gx by auto
  from repr_cong [OF this, of None] rep have repg: "repr g None ?t" by simp
  define c where "c = kids pv ?t"
  from kids_repr [OF repg pt] gx [rule_format, OF vp [symmetric]] p(1)
  have rc: "repr g (Some pv) c" and fc: "first_child cp = root_of c"
    by (auto simp add: c_def)
  from kids_distinct [OF dis pt] have dc: "distinct (ids c)" "pv \<notin> set (ids c)"
    by (auto simp add: c_def)
  from kids_subset [of pv ?t] have cs: "set (ids c) \<subseteq> set (ids ?t)" by (simp add: c_def)
  with vt have vc: "v \<notin> set (ids c)" by auto
  have rl: "read_link g (First_child_of pv) = Inr (root_of c)"
    using gx [rule_format, OF vp [symmetric]] p(1) fc by (simp add: read_link_def)
  from insert_chain [OF rc dc(1) vc _ _ gv cvp(1) cvp(2), of "First_child_of pv" "version cv"]
    dc(2) vp rl
  obtain L' sl c' where
    w: "insert_walk g (First_child_of pv) (version cv) = Some (Inr (L', sl))"
      "owner L' \<in> insert pv (set (ids c))" "owner L' = pv \<longrightarrow> L' = First_child_of pv"
      "repr (ins_result g v cvp L' sl) (Some pv) c'" "set (ids c') = insert v (set (ids c))"
      "distinct (ids c')" "read_link (ins_result g v cvp L' sl) (First_child_of pv) = Inr (root_of c')"
    by auto
  from w(2) cs pt have ot: "owner L' \<in> set (ids ?t)" by auto
  with vt have ov: "owner L' \<noteq> v" by auto
  from repr_dom [OF rep ot] obtain co where co: "h (owner L') = Some co" by auto
  define g2 where "g2 = ins_result g v cvp L' sl"
  from castle_versions_insert_result [OF v(1) cvp_def _ ov co, of sl] w(1) ins
  have h1: "h1 = g2" by (simp add: g_def g2_def)
  have g2x: "\<forall>x. x \<noteq> v \<longrightarrow> x \<noteq> owner L' \<longrightarrow> g2 x = h x"
    using gx by (simp add: g2_def ins_result_def)
  have g2o: "g2 (owner L') = Some (set_link L' (Some v) co)"
    using co gx [rule_format, OF ov] by (simp add: g2_def ins_result_def)
  have g2v: "g2 v = Some (cvp\<lparr>next_sybling := sl\<rparr>)"
    using ov by (simp add: g2_def ins_result_def)
  have frame: "\<forall>x. x \<notin> insert pv (set (ids c) \<union> insert v (set (ids c))) \<longrightarrow> g2 x = g x"
    using g2x gx w(2) by auto
  have w7: "read_link g2 (First_child_of pv) = Inr (root_of c')"
    using w(7) by (simp add: g2_def)
  then obtain cp2 where cp2a: "g2 pv = Some cp2" "first_child cp2 = root_of c'"
    by (auto simp add: read_link_def split: option.splits)
  have cp2b: "parent_u cp2 = parent_u cp \<and> next_sybling cp2 = next_sybling cp"
  proof (cases "owner L' = pv")
    case True
    with w(3) have "L' = First_child_of pv" by simp
    with g2o co p(1) cp2a(1) show ?thesis by auto
  next
    case False
    with g2x vp have "g2 pv = h pv" by auto
    with p(1) cp2a(1) show ?thesis by simp
  qed
  note cp2 = cp2a(1) cp2b [THEN conjunct1] cp2b [THEN conjunct2] cp2a(2)
  have gp: "g pv = Some cp" using gx vp p(1) by auto
  have w4: "repr g2 (Some pv) c'" using w(4) by (simp only: g2_def)
  have pC: "pv \<in> set (ids ?t) \<longrightarrow> set (ids (kids pv ?t)) = set (ids c)"
    by (simp only: c_def simp_thms)
  have pC2: "pv \<notin> set (ids ?t) \<longrightarrow> set (ids ?t) \<inter> set (ids c) = {}"
    using pt by blast
  have nw: "insert v (set (ids c)) \<inter> (set (ids ?t) - set (ids c)) = {}"
    using vt by auto
  from graft_tree [OF frame gp cp2 w4 w(5,6) repg dis nw pC pC2] obtain t' where
    t0: "repr g2 None t'"
      "set (ids t') = (if pv \<in> set (ids ?t) then (set (ids ?t) - set (ids c)) \<union> insert v (set (ids c))
                       else set (ids ?t))"
      "distinct (ids t')" "\<forall>x l0. ?t = Nd x l0 Tip \<longrightarrow> (\<exists>l'. t' = Nd x l' Tip)"
    by blast
  have i0: "set (ids t') = set (ids ?t) \<union> {v}"
    using t0(2) pt cs by (auto simp only: if_True)
  from t0(4) obtain l' where l': "t' = Nd 0 l' Tip" by blast
  have t': "repr g2 None (Nd 0 l' Tip)"
    "set (ids (Nd 0 l' Tip)) = set (ids ?t) \<union> {v}" "distinct (ids (Nd 0 l' Tip))"
    using t0(1) i0 t0(3) unfolding l' by blast+
  let ?t' = "Nd 0 l' Tip"
  from v1 h1 g2v have cv1: "cv1 = cvp\<lparr>next_sybling := sl\<rparr>" by simp
  define h3 where "h3 = g2(v \<mapsto> cv1\<lparr>cv_inited := True\<rparr>)"
  have h3x: "\<forall>x. x \<noteq> v \<longrightarrow> h3 x = g2 x" by (simp add: h3_def)
  have h3v: "h3 v = Some (cv1\<lparr>cv_inited := True\<rparr>)" by (simp add: h3_def)
  have "\<forall>x\<in>set (ids ?t'). \<forall>c. g2 x = Some c \<longrightarrow>
     (\<exists>c'. h3 x = Some c' \<and> parent_u c' = parent_u c \<and> first_child c' = first_child c \<and>
           next_sybling c' = next_sybling c)"
    using g2v cv1 by (auto simp add: h3_def)
  from repr_shape [OF this t'(1)] have rep3: "repr h3 None ?t'" .
  have fl3: "\<forall>x c. h3 x = Some c \<longrightarrow>
         (cv_inited c = (x \<in> set (ids ?t'))) \<and> (\<not> cv_inited c \<longrightarrow> first_child c = None)"
  proof (intro allI impI)
    fix x c assume xc: "h3 x = Some c"
    show "(cv_inited c = (x \<in> set (ids ?t'))) \<and> (\<not> cv_inited c \<longrightarrow> first_child c = None)"
    proof (cases "x = v")
      case True
      with xc h3v t'(2) show ?thesis by auto
    next
      case xv: False
      show ?thesis
      proof (cases "x = owner L'")
        case True
        with xc h3x [rule_format, OF xv] g2o have "c = set_link L' (Some v) co" by simp
        with fl [OF co] ot True t'(2) show ?thesis by (simp add: set_link_fields)
      next
        case False
        with xc h3x [rule_format, OF xv] g2x [rule_format, OF xv] have "h x = Some c" by simp
        from fl [OF this] lf [OF this] xv t'(2) show ?thesis by auto
      qed
    qed
  qed
  have "INVAL_VERSION \<noteq> v" "INVAL_VERSION \<noteq> owner L'" using iv v(1) co by auto
  with h3x g2x iv have "h3 INVAL_VERSION = None" by simp
  with rep3 t'(3) fl3 have "tree_inv h3 ?t'" unfolding tree_inv_def by blast
  with h1 show ?thesis unfolding h3_def by blast
qed

text \<open>P5 of the specification: every inited version other than the root is numbered after
  its parent and no later than the last descendant of its parent.\<close>

definition dfs_ordered :: "versions_hash \<Rightarrow> bool" where
  "dfs_ordered h = (\<forall>v cv. h v = Some cv \<and> cv_inited cv \<and> v \<noteq> 0 \<longrightarrow> below_parent h cv)"

lemma insert_step_registry:
  "registry_inv h \<Longrightarrow> h v = Some cv \<Longrightarrow> \<not> cv_inited cv \<Longrightarrow> h pv = Some cp \<Longrightarrow> cv_inited cp \<Longrightarrow>
   castle_versions_insert h pv v = Some (Inr h1) \<Longrightarrow> h1 v = Some cv1 \<Longrightarrow>
   registry_inv (h1(v \<mapsto> cv1\<lparr>cv_inited := True\<rparr>))"
  unfolding registry_inv_def using insert_step by blast

text \<open>The first loop of \<^verbatim>\<open>castle_versions_process\<close> keeps the invariant.\<close>

lemma process_init_list_inv:
  assumes "process_init_list h il sl err cur = Some r"
  shows "registry_inv h \<longrightarrow> (\<forall>h' sl' e'. r = Inr (h', sl', e') \<longrightarrow> registry_inv h')"
proof (rule process_init_list.raw_induct [OF _ assms], goal_cases)
  case (1 process_init_list h il sl err cur r)
  show ?case
  proof (intro impI allI)
    fix h' sl' e'
    assume inv: "registry_inv h" and r: "r = Inr (h', sl', e')"
    show "registry_inv h'"
    proof (cases cur)
      case None
      with 1(2) r inv 1(1) show ?thesis
        by (cases il) auto
    next
      case (Some v)
      with 1(2) r have nin: "v \<in> set il" by (auto split: if_splits)
      with 1(2) r Some obtain cv where cv: "h v = Some cv" "\<not> cv_inited cv"
        by (auto split: option.splits if_splits simp add: Let_def)
      with 1(2) r Some nin obtain pv where pv: "parent_u cv = Parent_v pv"
        by (auto split: parent_link.splits simp add: Let_def)
      with 1(2) r Some nin cv obtain cp where cp: "h pv = Some cp"
        by (auto split: option.splits simp add: Let_def)
      have b: "(if cv_snap cv \<and> first_child cp \<noteq> None
                then process_init_list h (remove1 v il) sl (- 1) None
                else if \<not> cv_snap cv \<and> cv_attached cp \<and> first_child cp = None
                then process_init_list h (remove1 v il) sl (- 2) None
                else if \<not> cv_inited cp
                then process_init_list h (v # remove1 v il) sl err (Some pv)
                else
                  (case castle_versions_insert h pv v of
                     None \<Rightarrow> None
                   | Some (Inl f) \<Rightarrow> Some (Inl f)
                   | Some (Inr h1) \<Rightarrow>
                       (case h1 v of
                          None \<Rightarrow> Some (Inl OOB)
                        | Some cv1 \<Rightarrow>
                            process_init_list (h1(v \<mapsto> cv1\<lparr>cv_inited := True\<rparr>))
                              (remove1 v il) (v # sl) err None))) = Some r"
        using 1(2) Some nin cv pv cp by (simp add: Let_def)
      show ?thesis
      proof (cases "cv_snap cv \<and> first_child cp \<noteq> None")
        case True
        with b have "process_init_list h (remove1 v il) sl (- 1) None = Some r"
          by (auto split: if_splits)
        from 1(1) [OF this] inv r show ?thesis by simp
      next
        case F1: False
        show ?thesis
        proof (cases "\<not> cv_snap cv \<and> cv_attached cp \<and> first_child cp = None")
          case True
          with b F1 have "process_init_list h (remove1 v il) sl (- 2) None = Some r"
            by (auto split: if_splits)
          from 1(1) [OF this] inv r show ?thesis by simp
        next
          case F2: False
          show ?thesis
          proof (cases "cv_inited cp")
            case False
            with b F1 F2 have "process_init_list h (v # remove1 v il) sl err (Some pv) = Some r"
              by (auto split: if_splits)
            from 1(1) [OF this] inv r show ?thesis by simp
          next
            case True
            from b F1 F2 True r obtain h1 cv1 where
              i: "castle_versions_insert h pv v = Some (Inr h1)" "h1 v = Some cv1"
                "process_init_list (h1(v \<mapsto> cv1\<lparr>cv_inited := True\<rparr>)) (remove1 v il) (v # sl) err None
                   = Some r"
              by (auto split: option.splits sum.splits if_splits)
            from insert_step_registry [OF inv cv cp True i(1,2)] 1(1) [OF i(3)] r
            show ?thesis by (simp add: fun_upd_def)
          qed
        qed
      qed
    qed
  qed
qed


lemma tree_inv_stripped:
  assumes "stripped h' = stripped h" "tree_inv h t"
  shows "tree_inv h' t"
proof -
  from assms(2) have rep: "repr h None t" and dis: "distinct (ids t)"
    and fl: "\<And>x c. h x = Some c \<Longrightarrow> cv_inited c = (x \<in> set (ids t))"
    and lf: "\<And>x c. h x = Some c \<Longrightarrow> \<not> cv_inited c \<Longrightarrow> first_child c = None"
    and iv: "h INVAL_VERSION = None"
    unfolding tree_inv_def by blast+
  have "\<forall>x c. h' x = Some c \<longrightarrow>
         (cv_inited c = (x \<in> set (ids t))) \<and> (\<not> cv_inited c \<longrightarrow> first_child c = None)"
  proof (intro allI impI)
    fix x c assume "h' x = Some c"
    from stripped_SomeD [OF assms(1) [symmetric] this] obtain c0 where
      c0: "h x = Some c0" "strip c0 = strip c" by blast
    from strip_eqD [OF c0(2)] fl [OF c0(1)] lf [OF c0(1)]
    show "(cv_inited c = (x \<in> set (ids t))) \<and> (\<not> cv_inited c \<longrightarrow> first_child c = None)"
      by auto
  qed
  with repr_stripped [OF assms(1) rep] dis stripped_NoneD [OF assms(1) iv]
  show ?thesis unfolding tree_inv_def by blast
qed

lemma distinct_versions_bound:
  fixes xs :: "version_t list"
  assumes "distinct xs" "INVAL_VERSION \<notin> set xs"
  shows "length xs < 2 ^ 32"
proof -
  have "length xs = card (set xs)" using assms(1) by (simp add: distinct_card)
  also have "\<dots> \<le> card (UNIV - {INVAL_VERSION})"
    using assms(2) by (intro card_mono) auto
  also have "\<dots> = 2 ^ 32 - 1" by (simp add: card_Diff_singleton card_word)
  finally show ?thesis by simp
qed

text \<open>The second loop of \<^verbatim>\<open>castle_versions_process\<close>, from the root: it ends, and the tree
  is numbered.\<close>

lemma process_dfs_root:
  assumes "tree_inv h (Nd 0 l Tip)"
  shows "\<exists>h'. process_dfs h (Some 0) 0 True = Some (Inr h') \<and> tree_inv h' (Nd 0 l Tip) \<and>
           dfs_ordered h'"
proof -
  let ?t = "Nd 0 l Tip"
  from assms have rep: "repr h None ?t" and dis: "distinct (ids ?t)"
    and iv: "h INVAL_VERSION = None"
    unfolding tree_inv_def by blast+
  from process_dfs_subtree [OF rep dis, of 0] obtain h' where
    h': "process_dfs h (Some 0) 0 True = process_dfs h' None (of_nat (length (ids ?t))) False"
      "stripped h' = stripped h" "numbered h' ?t 0"
    by auto
  have e: "process_dfs h' None (of_nat (length (ids ?t))) False = Some (Inr h')"
    by (subst process_dfs.simps) simp
  from tree_inv_stripped [OF h'(2) assms] have inv': "tree_inv h' ?t" .
  then have rep': "repr h' None ?t"
    and fl: "\<And>x c. h' x = Some c \<Longrightarrow> cv_inited c = (x \<in> set (ids ?t))"
    unfolding tree_inv_def by blast+
  have "INVAL_VERSION \<notin> set (ids ?t)" using repr_dom [OF rep] iv by blast
  from distinct_versions_bound [OF dis this] have b: "length (ids ?t) < 2 ^ 32" .
  have "dfs_ordered h'"
    unfolding dfs_ordered_def
  proof (intro allI impI)
    fix v cv assume a: "h' v = Some cv \<and> cv_inited cv \<and> v \<noteq> 0"
    with fl [of v cv] have "v \<in> set (ids l)" by auto
    from numbered_below_parent [OF rep' h'(3) b this] a show "below_parent h' cv" by blast
  qed
  with h'(1) e inv' show ?thesis by auto
qed

text \<open>A run of \<^verbatim>\<open>castle_versions_process\<close> that returns keeps the invariant and leaves the
  tree numbered.\<close>

lemma castle_versions_process_ordered:
  assumes "registry_inv (castle_versions_hash s)"
    "castle_versions_process env s = Some (Inr (err, s'))"
  shows "registry_inv (castle_versions_hash s') \<and> dfs_ordered (castle_versions_hash s')"
proof -
  from assms(2) obtain h sl e where
    l1: "process_init_list (castle_versions_hash s) (castle_versions_init_list s) [] 0 None =
           Some (Inr (h, sl, e))"
    by (auto simp add: castle_versions_process_def split: option.splits sum.splits)
  from process_init_list_inv [OF l1] assms(1) have "registry_inv h" by simp
  then obtain l where inv: "tree_inv h (Nd 0 l Tip)" unfolding registry_inv_def by blast
  from process_dfs_root [OF inv] obtain h' where
    h': "process_dfs h (Some 0) 0 True = Some (Inr h')" "tree_inv h' (Nd 0 l Tip)" "dfs_ordered h'"
    by blast
  from assms(2) l1 h'(1) have "castle_versions_hash s' = h'"
    by (auto simp add: castle_versions_process_def split: option.splits if_splits)
  with h'(2,3) show ?thesis unfolding registry_inv_def by blast
qed

subsection \<open>Deleting a leaf keeps the invariant\<close>

text \<open>The list of siblings that starts at the root of \<open>t\<close>.\<close>

fun spine :: "vt \<Rightarrow> version_t list" where
  "spine Tip = []"
| "spine (Nd x l r) = x # spine r"

definition prev_link :: "version_t \<Rightarrow> version_t option \<Rightarrow> link" where
  "prev_link p prev = (case prev of None \<Rightarrow> First_child_of p | Some q \<Rightarrow> Next_sybling_of q)"

text \<open>The hash after \<^verbatim>\<open>castle_versions_drop\<close> has written \<open>x\<close> into the place \<open>L'\<close>.\<close>

definition drop_result :: "versions_hash \<Rightarrow> link \<Rightarrow> version_t option \<Rightarrow> versions_hash" where
  "drop_result h L' x = h(owner L' \<mapsto> set_link L' x (the (h (owner L'))))"

lemma spine_subset: "set (spine t) \<subseteq> set (ids t)"
  by (induction t) auto

lemma repr_parent_spine:
  "repr h par t \<Longrightarrow> distinct (ids t) \<Longrightarrow> x \<in> set (ids t) \<Longrightarrow> h x = Some cx \<Longrightarrow>
   (x \<in> set (spine t) \<and> parent_u cx = Parent par) \<or>
   (\<exists>q\<in>set (ids t). parent_u cx = Parent (Some q) \<and> x \<in> set (spine (kids q t)))"
proof (induction t arbitrary: par)
  case Tip
  then show ?case by simp
next
  case (Nd y l r)
  from Nd.prems(1) obtain cv where cv: "h y = Some cv" "parent_u cv = Parent par"
    and l: "repr h (Some y) l" and r: "repr h par r"
    by (auto split: option.splits)
  from Nd.prems(2) have d: "y \<notin> set (ids l)" "y \<notin> set (ids r)" "distinct (ids l)"
    "distinct (ids r)" "set (ids l) \<inter> set (ids r) = {}" by auto
  from Nd.prems(3) consider "x = y" | "x \<in> set (ids l)" | "x \<in> set (ids r)" by auto
  then show ?case
  proof cases
    case 1
    with cv Nd.prems(4) show ?thesis by simp
  next
    case 2
    from Nd.IH(1) [OF l d(3) 2 Nd.prems(4)] show ?thesis
    proof
      assume "x \<in> set (spine l) \<and> parent_u cx = Parent (Some y)"
      then show ?thesis by auto
    next
      assume "\<exists>q\<in>set (ids l). parent_u cx = Parent (Some q) \<and> x \<in> set (spine (kids q l))"
      then obtain q where q: "q \<in> set (ids l)" "parent_u cx = Parent (Some q)"
        "x \<in> set (spine (kids q l))" by blast
      with d(1) have "q \<noteq> y" by auto
      with q have "q \<in> set (ids (Nd y l r)) \<and> parent_u cx = Parent (Some q) \<and>
        x \<in> set (spine (kids q (Nd y l r)))" by simp
      then show ?thesis by blast
    qed
  next
    case 3
    from Nd.IH(2) [OF r d(4) 3 Nd.prems(4)] show ?thesis
    proof
      assume "x \<in> set (spine r) \<and> parent_u cx = Parent par"
      then show ?thesis by auto
    next
      assume "\<exists>q\<in>set (ids r). parent_u cx = Parent (Some q) \<and> x \<in> set (spine (kids q r))"
      then obtain q where q: "q \<in> set (ids r)" "parent_u cx = Parent (Some q)"
        "x \<in> set (spine (kids q r))" by blast
      with d(2,5) have "q \<noteq> y" "q \<notin> set (ids l)" by auto
      with q have "q \<in> set (ids (Nd y l r)) \<and> parent_u cx = Parent (Some q) \<and>
        x \<in> set (spine (kids q (Nd y l r)))" by simp
      then show ?thesis by blast
    qed
  qed
qed

lemma drop_walk_end: "drop_walk h v p prev None = Some (Inr h)"
  by (subst drop_walk.simps) simp

lemma drop_walk_other:
  "sl \<noteq> v \<Longrightarrow> h v = Some cv \<Longrightarrow> h sl = Some cs \<Longrightarrow>
   drop_walk h v p prev (Some sl) = drop_walk h v p (Some sl) (next_sybling cs)"
  by (subst drop_walk.simps) simp

lemma drop_walk_hit:
  "h v = Some cv \<Longrightarrow> write_link h (prev_link p prev) (next_sybling cv) = Inr h1 \<Longrightarrow>
   h1 v = Some cs \<Longrightarrow>
   drop_walk h v p prev (Some v) = drop_walk h1 v p (Some v) (next_sybling cs)"
  by (subst drop_walk.simps) (simp add: prev_link_def)

lemma drop_walk_miss:
  "repr h par c \<Longrightarrow> v \<notin> set (spine c) \<Longrightarrow> h v = Some cv \<Longrightarrow>
   drop_walk h v p prev (root_of c) = Some (Inr h)"
proof (induction c arbitrary: prev)
  case Tip
  then show ?case by (simp add: drop_walk_end)
next
  case (Nd s l r)
  from Nd.prems(1) obtain cs where cs: "h s = Some cs" "next_sybling cs = root_of r"
    and r: "repr h par r"
    by (auto split: option.splits)
  from Nd.prems(2) have n: "s \<noteq> v" "v \<notin> set (spine r)" by auto
  from drop_walk_other [OF n(1) Nd.prems(3) cs(1), of p prev] cs(2)
    Nd.IH(2) [OF r n(2) Nd.prems(3), of "Some s"]
  show ?case by simp
qed

text \<open>The walk of \<^verbatim>\<open>castle_versions_drop\<close> along a list of siblings that holds the leaf
  \<open>v\<close> ends, and leaves the list without \<open>v\<close>.\<close>

lemma drop_chain:
  "repr h par c \<Longrightarrow> distinct (ids c) \<Longrightarrow> v \<in> set (spine c) \<Longrightarrow> owner L \<notin> set (ids c) \<Longrightarrow>
   h v = Some cv \<Longrightarrow> first_child cv = None \<Longrightarrow> L = prev_link p prev \<Longrightarrow>
   read_link h L = Inr (root_of c) \<Longrightarrow>
   \<exists>L' c'. drop_walk h v p prev (root_of c) = Some (Inr (drop_result h L' (next_sybling cv))) \<and>
     owner L' \<in> insert (owner L) (set (ids c)) \<and> owner L' \<noteq> v \<and> (owner L' = owner L \<longrightarrow> L' = L) \<and>
     repr (drop_result h L' (next_sybling cv)) par c' \<and> set (ids c') = set (ids c) - {v} \<and>
     distinct (ids c') \<and> read_link (drop_result h L' (next_sybling cv)) L = Inr (root_of c')"
proof (induction c arbitrary: L prev)
  case Tip
  then show ?case by simp
next
  case (Nd s l r)
  from Nd.prems(1) obtain cs where cs: "h s = Some cs" "parent_u cs = Parent par"
    "first_child cs = root_of l" "next_sybling cs = root_of r"
    and l: "repr h (Some s) l" and r: "repr h par r"
    by (auto split: option.splits)
  from Nd.prems(2) have d: "s \<notin> set (ids l)" "s \<notin> set (ids r)" "distinct (ids l)"
    "distinct (ids r)" "set (ids l) \<inter> set (ids r) = {}" by auto
  from Nd.prems(4) have on: "owner L \<noteq> s" "owner L \<notin> set (ids l)" "owner L \<notin> set (ids r)"
    by auto
  from Nd.prems(8) have rl: "read_link h L = Inr (Some s)" by simp
  from rl obtain co where co: "h (owner L) = Some co"
    by (auto simp add: read_link_alt split: option.splits)
  show ?case
  proof (cases "s = v")
    case True
    with cs Nd.prems(5,6) have cv: "cs = cv" "l = Tip" "next_sybling cv = root_of r" by auto
    let ?h1 = "drop_result h L (next_sybling cv)"
    have w: "write_link h (prev_link p prev) (next_sybling cv) = Inr ?h1"
      using co Nd.prems(7) by (simp add: write_link_alt drop_result_def)
    have ov: "owner L \<noteq> v" using on True by simp
    then have v1: "?h1 v = Some cv" using Nd.prems(5) by (simp add: drop_result_def)
    have "\<forall>x\<in>set (ids r). ?h1 x = h x" using on by (auto simp add: drop_result_def)
    from repr_cong [OF this, of par] r have r1: "repr ?h1 par r" by simp
    have vr: "v \<notin> set (spine r)" using d(2) True spine_subset [of r] by auto
    have "drop_walk h v p prev (Some v) = drop_walk ?h1 v p (Some v) (root_of r)"
      using drop_walk_hit [OF Nd.prems(5) w v1] cv by simp
    also have "\<dots> = Some (Inr ?h1)" using drop_walk_miss [OF r1 vr v1] .
    finally have dw: "drop_walk h v p prev (root_of (Nd s l r)) = Some (Inr ?h1)"
      using True by simp
    have rl1: "read_link ?h1 L = Inr (root_of r)"
      using co cv by (simp add: read_link_alt drop_result_def)
    have i: "set (ids r) = set (ids (Nd s l r)) - {v}" using True cv d by auto
    from dw ov r1 i d(4) rl1 show ?thesis
      by (intro exI [of _ L] exI [of _ r]) simp
  next
    case False
    with Nd.prems(3) have vr: "v \<in> set (spine r)" by simp
    with spine_subset [of r] d have vn: "v \<noteq> s" "v \<notin> set (ids l)" "v \<in> set (ids r)" by auto
    have step: "drop_walk h v p prev (Some s) = drop_walk h v p (Some s) (root_of r)"
      using drop_walk_other [OF False Nd.prems(5) cs(1), of p prev] cs by simp
    have rl': "read_link h (Next_sybling_of s) = Inr (root_of r)"
      using cs by (simp add: read_link_def)
    have pl: "Next_sybling_of s = prev_link p (Some s)" by (simp add: prev_link_def)
    from Nd.IH(2) [OF r d(4) vr _ Nd.prems(5,6) pl rl'] d(2)
    obtain L' c' where
      ih: "drop_walk h v p (Some s) (root_of r) = Some (Inr (drop_result h L' (next_sybling cv)))"
        "owner L' \<in> insert s (set (ids r))" "owner L' \<noteq> v" "owner L' = s \<longrightarrow> L' = Next_sybling_of s"
        "repr (drop_result h L' (next_sybling cv)) par c'" "set (ids c') = set (ids r) - {v}"
        "distinct (ids c')"
        "read_link (drop_result h L' (next_sybling cv)) (Next_sybling_of s) = Inr (root_of c')"
      by auto
    let ?h2 = "drop_result h L' (next_sybling cv)"
    have ol: "owner L' \<noteq> owner L" using ih(2) on by auto
    have s2: "\<exists>cs2. ?h2 s = Some cs2 \<and> parent_u cs2 = Parent par \<and> first_child cs2 = root_of l \<and>
                next_sybling cs2 = root_of c'"
    proof (cases "owner L' = s")
      case True
      with ih(4) have "L' = Next_sybling_of s" by simp
      with cs ih(8) show ?thesis by (simp add: drop_result_def read_link_def)
    next
      case False
      then have "?h2 s = h s" by (simp add: drop_result_def)
      with cs ih(8) show ?thesis by (simp add: read_link_def)
    qed
    have "\<forall>x\<in>set (ids l). ?h2 x = h x"
      using ih(2) d(1,5) by (auto simp add: drop_result_def)
    from repr_cong [OF this, of "Some s"] l have l2: "repr ?h2 (Some s) l" by simp
    have rep: "repr ?h2 par (Nd s l c')" using s2 l2 ih(5) by auto
    have "?h2 (owner L) = h (owner L)" using ol by (simp add: drop_result_def)
    with rl have rl2: "read_link ?h2 L = Inr (root_of (Nd s l c'))"
      by (simp add: read_link_alt)
    have i: "set (ids (Nd s l c')) = set (ids (Nd s l r)) - {v}" using ih(6) vn by auto
    have di: "distinct (ids (Nd s l c'))" using ih(6,7) d by auto
    have o1: "owner L' \<in> insert (owner L) (set (ids (Nd s l r)))" using ih(2) by auto
    from step ih(1,3) o1 ol rep i di rl2 show ?thesis
      by (intro exI [of _ L'] exI [of _ "Nd s l c'"]) simp
  qed
qed


lemma castle_version_delete_cases:
  assumes "castle_version_delete h v = Some (Inr (par, h3))"
  obtains cv p cp h1 where "h v = Some cv" "cv_inited cv" "parent_u cv = Parent (Some p)"
    "par = Some p" "h p = Some cp" "drop_walk h v p None (first_child cp) = Some (Inr h1)"
    "h3 = h1(v := None)"
  using assms
  by (auto simp add: castle_version_delete_def castle_versions_drop_def
      split: option.splits if_splits parent_link.splits sum.splits)

lemma delete_step:
  assumes inv: "tree_inv h (Nd 0 l Tip)"
    and del: "castle_version_delete h v = Some (Inr (par, h3))"
    and leaf: "\<forall>cv. h v = Some cv \<longrightarrow> first_child cv = None"
  shows "\<exists>l'. tree_inv h3 (Nd 0 l' Tip)"
proof -
  let ?t = "Nd 0 l Tip"
  from inv have rep: "repr h None ?t" and dis: "distinct (ids ?t)"
    and fl: "\<And>x c. h x = Some c \<Longrightarrow> cv_inited c = (x \<in> set (ids ?t))"
    and lf: "\<And>x c. h x = Some c \<Longrightarrow> \<not> cv_inited c \<Longrightarrow> first_child c = None"
    and iv: "h INVAL_VERSION = None"
    unfolding tree_inv_def by blast+
  from del obtain cv p cp h1 where
    d: "h v = Some cv" "cv_inited cv" "parent_u cv = Parent (Some p)"
      "h p = Some cp" "drop_walk h v p None (first_child cp) = Some (Inr h1)"
      "h3 = h1(v := None)"
    by (rule castle_version_delete_cases)
  from leaf d(1) have lv: "first_child cv = None" by simp
  from fl [OF d(1)] d(2) have vt: "v \<in> set (ids ?t)" by simp
  from repr_parent_spine [OF rep dis vt d(1)] d(3)
  have pt: "p \<in> set (ids ?t)" and vs: "v \<in> set (spine (kids p ?t))" by auto
  define c where "c = kids p ?t"
  from kids_repr [OF rep pt] d(4)
  have rc: "repr h (Some p) c" and fc: "first_child cp = root_of c"
    by (auto simp add: c_def)
  from kids_distinct [OF dis pt] have dc: "distinct (ids c)" "p \<notin> set (ids c)"
    by (auto simp add: c_def)
  from kids_subset [of p ?t] have cs: "set (ids c) \<subseteq> set (ids ?t)" by (simp add: c_def)
  from vs have vc: "v \<in> set (spine c)" by (simp only: c_def)
  with spine_subset [of c] have vic: "v \<in> set (ids c)" by auto
  have rl: "read_link h (First_child_of p) = Inr (root_of c)"
    using d(4) fc by (simp add: read_link_def)
  have pl: "First_child_of p = prev_link p None" by (simp add: prev_link_def)
  from drop_chain [OF rc dc(1) vc _ d(1) lv pl rl] dc(2)
  obtain L' c' where
    w: "drop_walk h v p None (root_of c) = Some (Inr (drop_result h L' (next_sybling cv)))"
      "owner L' \<in> insert p (set (ids c))" "owner L' \<noteq> v" "owner L' = p \<longrightarrow> L' = First_child_of p"
      "repr (drop_result h L' (next_sybling cv)) (Some p) c'" "set (ids c') = set (ids c) - {v}"
      "distinct (ids c')"
      "read_link (drop_result h L' (next_sybling cv)) (First_child_of p) = Inr (root_of c')"
    by auto
  from w(1) d(5) fc have h1: "h1 = drop_result h L' (next_sybling cv)" by simp
  from w(2) cs pt have ot: "owner L' \<in> set (ids ?t)" by auto
  from repr_dom [OF rep ot] obtain co where co: "h (owner L') = Some co" by auto
  have h1x: "\<forall>x. x \<noteq> owner L' \<longrightarrow> h1 x = h x" by (simp add: h1 drop_result_def)
  have h1o: "h1 (owner L') = Some (set_link L' (next_sybling cv) co)"
    using co by (simp add: h1 drop_result_def)
  have frame: "\<forall>x. x \<notin> insert p (set (ids c) \<union> (set (ids c) - {v})) \<longrightarrow> h1 x = h x"
  proof (intro allI impI)
    fix x assume "x \<notin> insert p (set (ids c) \<union> (set (ids c) - {v}))"
    with w(2) have "x \<noteq> owner L'" by auto
    with h1x show "h1 x = h x" by blast
  qed
  have w8: "read_link h1 (First_child_of p) = Inr (root_of c')" using w(8) by (simp only: h1)
  then obtain cp2 where cp2a: "h1 p = Some cp2" "first_child cp2 = root_of c'"
    by (auto simp add: read_link_def split: option.splits)
  have cp2b: "parent_u cp2 = parent_u cp \<and> next_sybling cp2 = next_sybling cp"
  proof (cases "owner L' = p")
    case True
    with w(4) have "L' = First_child_of p" by simp
    with h1o co d(4) cp2a(1) show ?thesis by auto
  next
    case False
    with h1x have "h1 p = h p" by auto
    with d(4) cp2a(1) show ?thesis by simp
  qed
  note cp2 = cp2a(1) cp2b [THEN conjunct1] cp2b [THEN conjunct2] cp2a(2)
  have w5: "repr h1 (Some p) c'" using w(5) by (simp only: h1)
  have pC: "p \<in> set (ids ?t) \<longrightarrow> set (ids (kids p ?t)) = set (ids c)"
    by (simp only: c_def simp_thms)
  have pC2: "p \<notin> set (ids ?t) \<longrightarrow> set (ids ?t) \<inter> set (ids c) = {}"
    using pt by blast
  have nw: "(set (ids c) - {v}) \<inter> (set (ids ?t) - set (ids c)) = {}" by auto
  from graft_tree [OF frame d(4) cp2 w5 w(6,7) rep dis nw pC pC2] obtain t' where
    t0: "repr h1 None t'"
      "set (ids t') = (if p \<in> set (ids ?t) then (set (ids ?t) - set (ids c)) \<union> (set (ids c) - {v})
                       else set (ids ?t))"
      "distinct (ids t')" "\<forall>x l0. ?t = Nd x l0 Tip \<longrightarrow> (\<exists>l'. t' = Nd x l' Tip)"
    by blast
  have i0: "set (ids t') = set (ids ?t) - {v}"
    using t0(2) pt cs vic by (auto simp only: if_True)
  from t0(4) obtain l' where l': "t' = Nd 0 l' Tip" by blast
  have "\<forall>x\<in>set (ids t'). h3 x = h1 x" using i0 d(6) by auto
  from repr_cong [OF this, of None] t0(1) have rep3: "repr h3 None t'" by simp
  have fl3: "\<forall>x c. h3 x = Some c \<longrightarrow>
         (cv_inited c = (x \<in> set (ids t'))) \<and> (\<not> cv_inited c \<longrightarrow> first_child c = None)"
  proof (intro allI impI)
    fix x c assume xc: "h3 x = Some c"
    with d(6) have xv: "x \<noteq> v" and x1: "h1 x = Some c" by (auto split: if_splits)
    show "(cv_inited c = (x \<in> set (ids t'))) \<and> (\<not> cv_inited c \<longrightarrow> first_child c = None)"
    proof (cases "x = owner L'")
      case True
      with x1 h1o have "c = set_link L' (next_sybling cv) co" by simp
      with fl [OF co] ot True i0 xv show ?thesis by (simp add: set_link_fields)
    next
      case False
      with x1 h1x have "h x = Some c" by simp
      from fl [OF this] lf [OF this] xv i0 show ?thesis by auto
    qed
  qed
  have "INVAL_VERSION \<noteq> owner L'" using iv co by auto
  with h1x iv d(6) have "h3 INVAL_VERSION = None" by simp
  with rep3 t0(3) fl3 have "tree_inv h3 t'" unfolding tree_inv_def by blast
  with l' show ?thesis by blast
qed

text \<open>The loop of \<^verbatim>\<open>castle_version_tree_delete\<close> keeps the invariant, and does not leave
  through \<^verbatim>\<open>error_out\<close>.\<close>

lemma tree_delete_loop_inv:
  assumes "tree_delete_loop h v cur = Some r"
  shows "registry_inv h \<longrightarrow> (\<forall>ret eo h'. r = Inr ((ret, eo), h') \<longrightarrow> registry_inv h' \<and> \<not> eo)"
proof (rule tree_delete_loop.raw_induct [OF _ assms], goal_cases)
  case (1 tree_delete_loop h v cur r)
  show ?case
  proof (intro impI allI)
    fix ret eo h'
    assume inv: "registry_inv h" and r: "r = Inr ((ret, eo), h')"
    from 1(2) r obtain ccur where cc: "h cur = Some ccur" by (auto split: option.splits)
    show "registry_inv h' \<and> \<not> eo"
    proof (cases "first_child ccur")
      case (Some c)
      with 1(2) cc have "tree_delete_loop h v c = Some r" by simp
      from 1(1) [OF this] inv r show ?thesis by simp
    next
      case None
      with 1(2) cc r obtain par h1 where
        del: "castle_version_delete h cur = Some (Inr (par, h1))"
        by (auto split: option.splits sum.splits)
      from del obtain p where p: "par = Some p" by (rule castle_version_delete_cases)
      from inv obtain l where "tree_inv h (Nd 0 l Tip)" unfolding registry_inv_def by blast
      from delete_step [OF this del] cc None have inv1: "registry_inv h1"
        unfolding registry_inv_def by simp
      show ?thesis
      proof (cases "cur = v")
        case True
        with 1(2) cc None del p r inv1 show ?thesis by simp
      next
        case False
        with 1(2) cc None del p have "tree_delete_loop h1 v p = Some r" by simp
        from 1(1) [OF this] inv1 r show ?thesis by simp
      qed
    qed
  qed
qed

lemma castle_version_tree_delete_ordered:
  assumes inv: "registry_inv (castle_versions_hash s)"
    and ord: "dfs_ordered (castle_versions_hash s)"
    and del: "castle_version_tree_delete env ver s = Some (Inr (ret, s'))"
  shows "registry_inv (castle_versions_hash s') \<and> dfs_ordered (castle_versions_hash s')"
proof (cases "castle_versions_hash s ver")
  case None
  with del have "s' = s" by (simp add: castle_version_tree_delete_def)
  with inv ord show ?thesis by simp
next
  case (Some cv)
  with del obtain r eo h1 where
    l: "tree_delete_loop (castle_versions_hash s) ver ver = Some (Inr ((r, eo), h1))"
    by (auto simp add: castle_version_tree_delete_def split: if_splits option.splits sum.splits)
  from tree_delete_loop_inv [OF l] inv have i1: "registry_inv h1" and eo: "\<not> eo" by auto
  from del Some l eo obtain err where
    "castle_versions_process env (s\<lparr>castle_versions_hash := h1\<rparr>) = Some (Inr (err, s'))"
    by (auto simp add: castle_version_tree_delete_def Let_def
        split: if_splits option.splits sum.splits)
  from castle_versions_process_ordered [OF _ this] i1 show ?thesis by simp
qed

subsection \<open>The operations of the registry keep the invariant\<close>

lemma tree_inv_outside:
  assumes "tree_inv h t" "v \<notin> set (ids t)" "v \<noteq> INVAL_VERSION" "\<not> cv_inited c"
    "first_child c = None"
  shows "tree_inv (h(v \<mapsto> c)) t"
proof -
  have "repr (h(v \<mapsto> c)) None t = repr h None t"
    by (rule repr_cong) (use assms(2) in auto)
  with assms show ?thesis
    unfolding tree_inv_def by auto
qed

lemma tree_inv_remove:
  assumes "tree_inv h t" "v \<notin> set (ids t)"
  shows "tree_inv (h(v := None)) t"
proof -
  have "repr (h(v := None)) None t = repr h None t"
    by (rule repr_cong) (use assms(2) in auto)
  with assms show ?thesis
    unfolding tree_inv_def by auto
qed

lemma dfs_ordered_outside:
  assumes inv: "tree_inv h t" and ord: "dfs_ordered h" and v: "v \<notin> set (ids t)"
    and same: "\<forall>x. x \<noteq> v \<longrightarrow> h' x = h x" and un: "\<forall>c. h' v = Some c \<longrightarrow> \<not> cv_inited c"
  shows "dfs_ordered h'"
  unfolding dfs_ordered_def
proof (intro allI impI)
  fix x cx assume a: "h' x = Some cx \<and> cv_inited cx \<and> x \<noteq> 0"
  with un have xv: "x \<noteq> v" by auto
  with a same have hx: "h x = Some cx" by auto
  with a ord have bp: "below_parent h cx" unfolding dfs_ordered_def by blast
  then obtain p cp where p: "parent_u cx = Parent (Some p)" "h p = Some cp"
    "o_order cp < o_order cx" "o_order cx \<le> r_order cp"
    unfolding below_parent_def by (auto split: parent_link.splits option.splits)
  from inv have rep: "repr h None t" and dis: "distinct (ids t)"
    and fl: "\<And>x c. h x = Some c \<Longrightarrow> cv_inited c = (x \<in> set (ids t))"
    unfolding tree_inv_def by blast+
  from fl [OF hx] a have "x \<in> set (ids t)" by simp
  from repr_parent_spine [OF rep dis this hx] p(1) have "p \<in> set (ids t)" by auto
  with v have "p \<noteq> v" by auto
  with same p(2) have "h' p = Some cp" by auto
  with p show "below_parent h' cx" by (simp add: below_parent_def)
qed

lemma castle_version_add_fresh:
  assumes "registry_inv (castle_versions_hash s)"
    "castle_version_add env ver par da sz s = Inr (Some v, s')"
  shows "v = ver \<and> castle_versions_hash s ver = None \<and>
     (\<exists>cv. castle_versions_hash s' = (castle_versions_hash s)(ver \<mapsto> cv) \<and> \<not> cv_inited cv \<and>
           first_child cv = None)"
proof -
  from assms(1) obtain l where "tree_inv (castle_versions_hash s) (Nd 0 l Tip)"
    unfolding registry_inv_def by blast
  then have "castle_versions_hash s 0 \<noteq> None"
    unfolding tree_inv_def by (auto split: option.splits)
  with assms(2) show ?thesis
    by (auto simp add: castle_version_add_def Let_def split: if_splits)
qed

lemma castle_version_add_same:
  "castle_version_add env ver par da sz s = Inr (None, s') \<Longrightarrow>
   castle_versions_hash s' = castle_versions_hash s"
  by (auto simp add: castle_version_add_def Let_def split: if_splits)

lemma registry_inv_fresh:
  assumes "registry_inv h" "h v = None \<or> (\<exists>c0. h v = Some c0 \<and> \<not> cv_inited c0)"
    "v \<noteq> INVAL_VERSION" "\<not> cv_inited c" "first_child c = None"
  shows "registry_inv (h(v \<mapsto> c))"
proof -
  from assms(1) obtain l where inv: "tree_inv h (Nd 0 l Tip)"
    unfolding registry_inv_def by blast
  then have rep: "repr h None (Nd 0 l Tip)"
    and fl: "\<And>x c. h x = Some c \<Longrightarrow> cv_inited c = (x \<in> set (ids (Nd 0 l Tip)))"
    unfolding tree_inv_def by blast+
  from assms(2) repr_dom [OF rep, of v] fl [of v] have "v \<notin> set (ids (Nd 0 l Tip))" by auto
  from tree_inv_outside [OF inv this assms(3,4,5)] show ?thesis
    unfolding registry_inv_def by blast
qed

lemma dfs_ordered_fresh:
  assumes "registry_inv h" "dfs_ordered h" "h v = None \<or> (\<exists>c0. h v = Some c0 \<and> \<not> cv_inited c0)"
    "\<forall>x. x \<noteq> v \<longrightarrow> h' x = h x" "\<forall>c. h' v = Some c \<longrightarrow> \<not> cv_inited c"
  shows "dfs_ordered h'"
proof -
  from assms(1) obtain l where inv: "tree_inv h (Nd 0 l Tip)"
    unfolding registry_inv_def by blast
  then have rep: "repr h None (Nd 0 l Tip)"
    and fl: "\<And>x c. h x = Some c \<Longrightarrow> cv_inited c = (x \<in> set (ids (Nd 0 l Tip)))"
    unfolding tree_inv_def by blast+
  from assms(3) repr_dom [OF rep, of v] fl [of v] have "v \<notin> set (ids (Nd 0 l Tip))" by auto
  from dfs_ordered_outside [OF inv assms(2) this assms(4,5)] show ?thesis .
qed

text \<open>\<^verbatim>\<open>castle_version_add\<close> of a valid version id keeps the invariant and the numbering.\<close>

lemma castle_version_add_inv:
  assumes inv: "registry_inv (castle_versions_hash s)"
    and add: "castle_version_add env ver par da sz s = Inr (r, s')"
    and ver: "ver \<noteq> INVAL_VERSION"
  shows "registry_inv (castle_versions_hash s') \<and>
         (dfs_ordered (castle_versions_hash s) \<longrightarrow> dfs_ordered (castle_versions_hash s'))"
proof (cases r)
  case None
  with add castle_version_add_same [of env ver par da sz s s'] inv show ?thesis by simp
next
  case (Some v)
  from castle_version_add_fresh [OF inv add [unfolded Some]] obtain cv where
    f: "castle_versions_hash s ver = None" "castle_versions_hash s' = (castle_versions_hash s)(ver \<mapsto> cv)"
      "\<not> cv_inited cv" "first_child cv = None" by blast
  from registry_inv_fresh [OF inv _ ver f(3,4)] f(1,2)
  have "registry_inv (castle_versions_hash s')" by simp
  moreover have "dfs_ordered (castle_versions_hash s) \<longrightarrow> dfs_ordered (castle_versions_hash s')"
  proof
    assume o: "dfs_ordered (castle_versions_hash s)"
    show "dfs_ordered (castle_versions_hash s')"
      by (rule dfs_ordered_fresh [OF inv o, of ver]) (use f in auto)
  qed
  ultimately show ?thesis by blast
qed

text \<open>\<^verbatim>\<open>castle_versions_zero_init\<close> on the empty registry establishes them.\<close>

lemma castle_versions_zero_init_inv:
  assumes "castle_versions_hash s = Map.empty" "castle_versions_zero_init env s = Inr (0, s')"
  shows "registry_inv (castle_versions_hash s') \<and> dfs_ordered (castle_versions_hash s')"
proof -
  from assms have h: "castle_versions_hash s' = [0 \<mapsto>
      \<lparr>version = 0, parent_u = Parent None, first_child = None,
       next_sybling = None, o_order = INVAL_VERSION, r_order = INVAL_VERSION,
       da_id = INVAL_DA, size_v = 0, cv_inited = True, cv_attached = False,
       cv_snap = False\<rparr>]"
    by (auto simp add: castle_versions_zero_init_def castle_version_add_def Let_def
        split: if_splits sum.splits option.splits)
  have "tree_inv (castle_versions_hash s') (Nd 0 Tip Tip)"
    unfolding h tree_inv_def by (simp add: INVAL_VERSION_def)
  moreover have "dfs_ordered (castle_versions_hash s')"
    unfolding h dfs_ordered_def by simp
  ultimately show ?thesis unfolding registry_inv_def by blast
qed

text \<open>\<^verbatim>\<open>castle_version_new\<close>: whether it runs \<^verbatim>\<open>castle_versions_process\<close> or returns before,
  it keeps the invariant and the numbering.\<close>

lemma castle_version_new_ordered:
  assumes inv: "registry_inv (castle_versions_hash s)"
    and ord: "dfs_ordered (castle_versions_hash s)"
    and new: "castle_version_new env snap par da sz s = Some (Inr (v, s'))"
  shows "registry_inv (castle_versions_hash s') \<and> dfs_ordered (castle_versions_hash s')"
proof -
  from new obtain r where nc: "castle_version_new_create env snap par da sz s = Some (Inr (r, s'))"
    by (auto simp add: castle_version_new_def split: option.splits sum.splits)
  show ?thesis
  proof (cases "castle_versions_hash s par")
    case None
    with nc have "s' = s" by (simp add: castle_version_new_create_def)
    with inv ord show ?thesis by simp
  next
    case (Some p)
    define ver where "ver = castle_versions_last s + 1"
    define s1 where "s1 = s\<lparr>castle_versions_last := ver\<rparr>"
    define da1 where "da1 = (if DA_INVAL da then da_id p else da)"
    have i1: "registry_inv (castle_versions_hash s1)" "dfs_ordered (castle_versions_hash s1)"
      using inv ord by (simp_all add: s1_def)
    from nc Some have vi: "ver \<noteq> INVAL_VERSION"
      by (auto simp add: castle_version_new_create_def Let_def ver_def VERSION_INVAL_def
          split: if_splits)
    from nc Some obtain r2 s2 where
      add: "castle_version_add env ver par da1 sz s1 = Inr (r2, s2)"
      by (auto simp add: castle_version_new_create_def Let_def ver_def s1_def da1_def
          split: if_splits sum.splits)
    have rest: "(case r2 of
        None \<Rightarrow> Some (Inr (None, s2))
      | Some v \<Rightarrow>
          (case castle_versions_hash s2 v of
             None \<Rightarrow> Some (Inl OOB)
           | Some cv \<Rightarrow>
               let cv1 = (if size_v p \<noteq> 0 then cv\<lparr>size_v := size_v p\<rparr> else cv);
                   cv2 = cv1\<lparr>cv_snap := snap\<rparr>;
                   s3 = s2\<lparr>castle_versions_hash := (castle_versions_hash s2)(v \<mapsto> cv2)\<rparr>
               in (case castle_versions_process env s3 of
                     None \<Rightarrow> None
                   | Some (Inl f) \<Rightarrow> Some (Inl f)
                   | Some (Inr (err, s4)) \<Rightarrow>
                       (case castle_versions_hash s4 v of
                          None \<Rightarrow> Some (Inl OOB)
                        | Some cv4 \<Rightarrow>
                            if \<not> cv_inited cv4
                            then Some (Inr (None,
                                   s4\<lparr>castle_versions_hash := (castle_versions_hash s4)(v := None)\<rparr>))
                            else Some (Inr (Some v, s4)))))) = Some (Inr (r, s'))"
      using nc Some add
      by (auto simp add: castle_version_new_create_def Let_def ver_def s1_def da1_def
          split: if_splits)
    from castle_version_add_inv [OF i1(1) add vi] i1(2)
    have i2: "registry_inv (castle_versions_hash s2)" "dfs_ordered (castle_versions_hash s2)"
      by blast+
    show ?thesis
    proof (cases r2)
      case None
      with rest i2 show ?thesis by auto
    next
      case (Some w)
      from castle_version_add_fresh [OF i1(1) add [unfolded Some]] obtain cv where
        f: "w = ver" "castle_versions_hash s1 ver = None"
          "castle_versions_hash s2 = (castle_versions_hash s1)(ver \<mapsto> cv)"
          "\<not> cv_inited cv" "first_child cv = None" by blast
      define cv2 where
        "cv2 = (if size_v p \<noteq> 0 then cv\<lparr>size_v := size_v p\<rparr> else cv)\<lparr>cv_snap := snap\<rparr>"
      define s3 where "s3 = s2\<lparr>castle_versions_hash := (castle_versions_hash s2)(ver \<mapsto> cv2)\<rparr>"
      have c2: "\<not> cv_inited cv2" "first_child cv2 = None" using f(4,5) by (simp_all add: cv2_def)
      have "registry_inv ((castle_versions_hash s2)(ver \<mapsto> cv2))"
        by (rule registry_inv_fresh [OF i2(1) _ vi c2]) (use f in auto)
      then have i3: "registry_inv (castle_versions_hash s3)" by (simp add: s3_def)
      from rest Some f(1,3) obtain err s4 where
        pr: "castle_versions_process env s3 = Some (Inr (err, s4))"
        by (auto simp add: Let_def s3_def cv2_def split: option.splits sum.splits if_splits)
      from castle_versions_process_ordered [OF i3 pr]
      have i4: "registry_inv (castle_versions_hash s4)" "dfs_ordered (castle_versions_hash s4)"
        by blast+
      from rest Some f(1,3) pr obtain cv4 where
        c4: "castle_versions_hash s4 ver = Some cv4"
        by (auto simp add: Let_def s3_def cv2_def split: option.splits sum.splits if_splits)
      show ?thesis
      proof (cases "cv_inited cv4")
        case True
        with rest Some f(1,3) pr c4 have "s' = s4"
          by (auto simp add: Let_def s3_def cv2_def split: option.splits sum.splits if_splits)
        with i4 show ?thesis by simp
      next
        case False
        with rest Some f(1,3) pr c4
        have h': "castle_versions_hash s' = (castle_versions_hash s4)(ver := None)"
          by (auto simp add: Let_def s3_def cv2_def split: option.splits sum.splits if_splits)
        from i4(1) obtain l where t4: "tree_inv (castle_versions_hash s4) (Nd 0 l Tip)"
          unfolding registry_inv_def by blast
        then have "cv_inited cv4 = (ver \<in> set (ids (Nd 0 l Tip)))"
          using c4 unfolding tree_inv_def by blast
        with False have nt: "ver \<notin> set (ids (Nd 0 l Tip))" by simp
        from tree_inv_remove [OF t4 nt] have "registry_inv (castle_versions_hash s')"
          unfolding h' registry_inv_def by blast
        moreover have "dfs_ordered (castle_versions_hash s')"
          by (rule dfs_ordered_outside [OF t4 i4(2) nt]) (simp_all add: h')
        ultimately show ?thesis by blast
      qed
    qed
  qed
qed


text \<open>Attaching and detaching a version change a flag only.\<close>

lemma attached_flag_inv:
  assumes inv: "registry_inv h" and ord: "dfs_ordered h" and v: "h v = Some c"
  shows "registry_inv (h(v \<mapsto> c\<lparr>cv_attached := b\<rparr>)) \<and> dfs_ordered (h(v \<mapsto> c\<lparr>cv_attached := b\<rparr>))"
proof -
  let ?h = "h(v \<mapsto> c\<lparr>cv_attached := b\<rparr>)"
  from inv obtain l where t: "tree_inv h (Nd 0 l Tip)" unfolding registry_inv_def by blast
  have "\<forall>x\<in>set (ids (Nd 0 l Tip)). \<forall>c0. h x = Some c0 \<longrightarrow>
     (\<exists>c'. ?h x = Some c' \<and> parent_u c' = parent_u c0 \<and> first_child c' = first_child c0 \<and>
           next_sybling c' = next_sybling c0)"
    using v by auto
  from repr_shape [OF this] t have "repr ?h None (Nd 0 l Tip)" unfolding tree_inv_def by blast
  with t v have "tree_inv ?h (Nd 0 l Tip)" unfolding tree_inv_def by auto
  then have "registry_inv ?h" unfolding registry_inv_def by blast
  moreover have "dfs_ordered ?h"
    unfolding dfs_ordered_def
  proof (intro allI impI)
    fix x cx assume a: "?h x = Some cx \<and> cv_inited cx \<and> x \<noteq> 0"
    then obtain c0 where c0: "h x = Some c0" "cx = (if x = v then c0\<lparr>cv_attached := b\<rparr> else c0)"
      using v by (auto split: if_splits)
    with a have "cv_inited c0" by (auto split: if_splits)
    with c0 a ord have "below_parent h c0" unfolding dfs_ordered_def by blast
    then obtain p cp where p: "parent_u c0 = Parent (Some p)" "h p = Some cp"
      "o_order cp < o_order c0" "o_order c0 \<le> r_order cp"
      unfolding below_parent_def by (auto split: parent_link.splits option.splits)
    with c0 v show "below_parent ?h cx" by (auto simp add: below_parent_def)
  qed
  ultimately show ?thesis by blast
qed

lemma castle_version_attach_inv:
  assumes "registry_inv (castle_versions_hash s)" "dfs_ordered (castle_versions_hash s)"
    "castle_version_attach ver s = (r, s')"
  shows "registry_inv (castle_versions_hash s') \<and> dfs_ordered (castle_versions_hash s')"
  using assms attached_flag_inv [of "castle_versions_hash s" ver _ True]
  by (auto simp add: castle_version_attach_def split: option.splits if_splits)

lemma castle_version_detach_inv:
  assumes "registry_inv (castle_versions_hash s)" "dfs_ordered (castle_versions_hash s)"
    "castle_version_detach ver s = Inr s'"
  shows "registry_inv (castle_versions_hash s') \<and> dfs_ordered (castle_versions_hash s')"
  using assms attached_flag_inv [of "castle_versions_hash s" ver _ False]
  by (auto simp add: castle_version_detach_def split: option.splits if_splits)

text \<open>\<^verbatim>\<open>castle_versions_read\<close> of entries with valid version ids.\<close>

lemma versions_read_loop_inv:
  "registry_inv (castle_versions_hash s) \<Longrightarrow> dfs_ordered (castle_versions_hash s) \<Longrightarrow>
   \<forall>e\<in>set es. version_nr e \<noteq> INVAL_VERSION \<Longrightarrow> versions_read_loop env es s = Inr (r, s') \<Longrightarrow>
   registry_inv (castle_versions_hash s') \<and> dfs_ordered (castle_versions_hash s')"
proof (induction es arbitrary: s)
  case Nil
  then show ?case by simp
next
  case (Cons e es)
  from Cons.prems(4) obtain r1 s1 where
    add: "castle_version_add env (version_nr e) (parent e) (da_id_e e) (size_e e) s = Inr (r1, s1)"
    by (auto split: sum.splits)
  from castle_version_add_inv [OF Cons.prems(1) add] Cons.prems(2,3)
  have i1: "registry_inv (castle_versions_hash s1)" "dfs_ordered (castle_versions_hash s1)"
    by auto
  show ?case
  proof (cases r1)
    case None
    with Cons.prems(4) add i1 show ?thesis by auto
  next
    case (Some v)
    define s2 where "s2 = (if VERSION_INVAL (castle_versions_last s1) \<or> v > castle_versions_last s1
             then s1\<lparr>castle_versions_last := v\<rparr> else s1)"
    have h2: "castle_versions_hash s2 = castle_versions_hash s1" by (simp add: s2_def)
    from Cons.prems(4) add Some have "versions_read_loop env es s2 = Inr (r, s')"
      by (simp add: s2_def)
    from Cons.IH [OF _ _ _ this] i1 h2 Cons.prems(3) show ?thesis by simp
  qed
qed

lemma castle_versions_read_ordered:
  assumes "registry_inv (castle_versions_hash s)" "dfs_ordered (castle_versions_hash s)"
    "\<forall>e\<in>set es. version_nr e \<noteq> INVAL_VERSION"
    "castle_versions_read env es s = Some (Inr (ret, s'))"
  shows "registry_inv (castle_versions_hash s') \<and> dfs_ordered (castle_versions_hash s')"
proof -
  from assms(4) obtain r s1 where l: "versions_read_loop env es s = Inr (r, s1)"
    by (auto simp add: castle_versions_read_def split: sum.splits)
  from versions_read_loop_inv [OF assms(1,2,3) l]
  have i1: "registry_inv (castle_versions_hash s1)" "dfs_ordered (castle_versions_hash s1)"
    by blast+
  show ?thesis
  proof (cases r)
    case None
    with assms(4) l have "castle_versions_process env s1 = Some (Inr (ret, s'))"
      by (simp add: castle_versions_read_def)
    from castle_versions_process_ordered [OF i1(1) this] show ?thesis .
  next
    case (Some e)
    with assms(4) l have "s' = s1" by (simp add: castle_versions_read_def)
    with i1 show ?thesis by simp
  qed
qed

subsection \<open>Before the root is added\<close>

text \<open>The registry from the start of the module on: no version is inited yet, or the inited
  versions are the tree under version 0.\<close>

definition registry_ok :: "versions_hash \<Rightarrow> bool" where
  "registry_ok h = (tree_inv h Tip \<or> registry_inv h)"

lemma registry_ok_empty: "registry_ok Map.empty"
  by (simp add: registry_ok_def tree_inv_def)

lemma rootless_ordered: "tree_inv h Tip \<Longrightarrow> dfs_ordered h"
  by (auto simp add: tree_inv_def dfs_ordered_def)

lemma castle_version_add_rootless:
  assumes r: "tree_inv (castle_versions_hash s) Tip"
    and add: "castle_version_add env ver par da sz s = Inr (Some v, s')"
    and ver: "ver \<noteq> INVAL_VERSION"
  shows "if ver = 0 then tree_inv (castle_versions_hash s') (Nd 0 Tip Tip)
         else tree_inv (castle_versions_hash s') Tip"
proof (cases "ver = 0")
  case True
  with add have h: "castle_versions_hash s 0 = None"
    "castle_versions_hash s' = (castle_versions_hash s)(0 \<mapsto>
      \<lparr>version = 0, parent_u = Parent None, first_child = None,
       next_sybling = None, o_order = INVAL_VERSION, r_order = INVAL_VERSION,
       da_id = da, size_v = sz, cv_inited = True, cv_attached = False,
       cv_snap = False\<rparr>)"
    by (auto simp add: castle_version_add_def Let_def split: if_splits)
  from r True show ?thesis unfolding h(2) tree_inv_def
    by (auto simp add: INVAL_VERSION_def)
next
  case False
  with add obtain cv where h: "castle_versions_hash s ver = None"
    "castle_versions_hash s' = (castle_versions_hash s)(ver \<mapsto> cv)" "\<not> cv_inited cv"
    "first_child cv = None"
    by (auto simp add: castle_version_add_def Let_def split: if_splits)
  from tree_inv_outside [OF r _ ver h(3,4)] False show ?thesis unfolding h(2) by simp
qed

lemma castle_version_add_ok:
  assumes ok: "registry_ok (castle_versions_hash s)"
    and add: "castle_version_add env ver par da sz s = Inr (r, s')"
    and ver: "ver \<noteq> INVAL_VERSION"
  shows "registry_ok (castle_versions_hash s') \<and>
         (dfs_ordered (castle_versions_hash s) \<longrightarrow> dfs_ordered (castle_versions_hash s'))"
proof (cases "registry_inv (castle_versions_hash s)")
  case True
  from castle_version_add_inv [OF True add ver] show ?thesis by (simp add: registry_ok_def)
next
  case False
  with ok have rl: "tree_inv (castle_versions_hash s) Tip" by (simp add: registry_ok_def)
  show ?thesis
  proof (cases r)
    case None
    with add castle_version_add_same [of env ver par da sz s s'] ok show ?thesis by simp
  next
    case (Some v)
    from castle_version_add_rootless [OF rl add [unfolded Some] ver]
    have t: "tree_inv (castle_versions_hash s') (Nd 0 Tip Tip) \<or> tree_inv (castle_versions_hash s') Tip"
      by (auto split: if_splits)
    then have "registry_ok (castle_versions_hash s')"
      unfolding registry_ok_def registry_inv_def by blast
    moreover from t have "dfs_ordered (castle_versions_hash s')"
    proof
      assume "tree_inv (castle_versions_hash s') (Nd 0 Tip Tip)"
      then show ?thesis by (auto simp add: tree_inv_def dfs_ordered_def)
    next
      assume "tree_inv (castle_versions_hash s') Tip"
      then show ?thesis by (rule rootless_ordered)
    qed
    ultimately show ?thesis by blast
  qed
qed

text \<open>While no version is inited, the first loop of \<^verbatim>\<open>castle_versions_process\<close> inits none,
  and the run stops at the assertions on the root.\<close>

lemma process_init_list_rootless:
  assumes "process_init_list h il sl err cur = Some r"
  shows "tree_inv h Tip \<longrightarrow> (\<forall>h' sl' e'. r = Inr (h', sl', e') \<longrightarrow> h' = h)"
proof (rule process_init_list.raw_induct [OF _ assms], goal_cases)
  case (1 process_init_list h il sl err cur r)
  show ?case
  proof (intro impI allI)
    fix h' sl' e'
    assume inv: "tree_inv h Tip" and r: "r = Inr (h', sl', e')"
    then have un: "\<And>x c. h x = Some c \<Longrightarrow> \<not> cv_inited c" unfolding tree_inv_def by auto
    show "h' = h"
    proof (cases cur)
      case None
      with 1(2) r inv 1(1) show ?thesis
        by (cases il) auto
    next
      case (Some v)
      with 1(2) r have nin: "v \<in> set il" by (auto split: if_splits)
      with 1(2) r Some obtain cv where cv: "h v = Some cv" "\<not> cv_inited cv"
        by (auto split: option.splits if_splits simp add: Let_def)
      with 1(2) r Some nin obtain pv where pv: "parent_u cv = Parent_v pv"
        by (auto split: parent_link.splits simp add: Let_def)
      with 1(2) r Some nin cv obtain cp where cp: "h pv = Some cp"
        by (auto split: option.splits simp add: Let_def)
      from un [OF cp] have ncp: "\<not> cv_inited cp" .
      have "process_init_list h (remove1 v il) sl (- 1) None = Some r \<or>
            process_init_list h (remove1 v il) sl (- 2) None = Some r \<or>
            process_init_list h (v # remove1 v il) sl err (Some pv) = Some r"
        using 1(2) Some nin cv pv cp ncp by (auto simp add: Let_def split: if_splits)
      then consider "process_init_list h (remove1 v il) sl (- 1) None = Some r"
        | "process_init_list h (remove1 v il) sl (- 2) None = Some r"
        | "process_init_list h (v # remove1 v il) sl err (Some pv) = Some r"
        by blast
      then show ?thesis
      proof cases
        case 1
        from \<open>\<And>il sysfs_list err cur b y. process_init_list il sysfs_list err cur b = Some y \<Longrightarrow>
            tree_inv il Tip \<longrightarrow> (\<forall>h' sl' e'. y = Inr (h', sl', e') \<longrightarrow> h' = il)\<close> [OF 1] inv r
        show ?thesis by simp
      next
        case 2
        from \<open>\<And>il sysfs_list err cur b y. process_init_list il sysfs_list err cur b = Some y \<Longrightarrow>
            tree_inv il Tip \<longrightarrow> (\<forall>h' sl' e'. y = Inr (h', sl', e') \<longrightarrow> h' = il)\<close> [OF 2] inv r
        show ?thesis by simp
      next
        case 3
        from \<open>\<And>il sysfs_list err cur b y. process_init_list il sysfs_list err cur b = Some y \<Longrightarrow>
            tree_inv il Tip \<longrightarrow> (\<forall>h' sl' e'. y = Inr (h', sl', e') \<longrightarrow> h' = il)\<close> [OF 3] inv r
        show ?thesis by simp
      qed
    qed
  qed
qed

lemma castle_versions_process_rootless:
  assumes "tree_inv (castle_versions_hash s) Tip"
  shows "castle_versions_process env s \<noteq> Some (Inr (err, s'))"
proof
  assume p: "castle_versions_process env s = Some (Inr (err, s'))"
  then obtain h sl e where
    l1: "process_init_list (castle_versions_hash s) (castle_versions_init_list s) [] 0 None =
           Some (Inr (h, sl, e))"
    by (auto simp add: castle_versions_process_def split: option.splits sum.splits)
  from process_init_list_rootless [OF l1] assms have "h = castle_versions_hash s" by simp
  with p l1 obtain root where "castle_versions_hash s 0 = Some root" "cv_inited root"
    by (auto simp add: castle_versions_process_def split: option.splits if_splits)
  with assms show False unfolding tree_inv_def by auto
qed


lemma castle_versions_process_ok:
  assumes "registry_ok (castle_versions_hash s)"
    "castle_versions_process env s = Some (Inr (err, s'))"
  shows "registry_inv (castle_versions_hash s') \<and> dfs_ordered (castle_versions_hash s')"
  using assms castle_versions_process_rootless [of s env err s']
    castle_versions_process_ordered [of s env err s']
  unfolding registry_ok_def by blast

lemma castle_version_new_rootless:
  assumes rl: "tree_inv (castle_versions_hash s) Tip"
    and new: "castle_version_new env snap par da sz s = Some (Inr (v, s'))"
  shows "castle_versions_hash s' = castle_versions_hash s"
proof -
  from new obtain r where nc: "castle_version_new_create env snap par da sz s = Some (Inr (r, s'))"
    by (auto simp add: castle_version_new_def split: option.splits sum.splits)
  show ?thesis
  proof (cases "castle_versions_hash s par")
    case None
    with nc show ?thesis by (simp add: castle_version_new_create_def)
  next
    case (Some p)
    define ver where "ver = castle_versions_last s + 1"
    define s1 where "s1 = s\<lparr>castle_versions_last := ver\<rparr>"
    define da1 where "da1 = (if DA_INVAL da then da_id p else da)"
    have r1: "tree_inv (castle_versions_hash s1) Tip" using rl by (simp add: s1_def)
    from nc Some have vi0: "ver \<noteq> INVAL_VERSION" "castle_versions_last s \<noteq> - 1"
      by (auto simp add: castle_version_new_create_def Let_def ver_def VERSION_INVAL_def
          INVAL_VERSION_def split: if_splits)
    from vi0(2) have "ver \<noteq> 0" unfolding ver_def by (simp add: eq_neg_iff_add_eq_0)
    note vi = vi0(1) this
    from nc Some obtain r2 s2 where
      add: "castle_version_add env ver par da1 sz s1 = Inr (r2, s2)"
      by (auto simp add: castle_version_new_create_def Let_def ver_def s1_def da1_def
          split: if_splits sum.splits)
    have rest: "(case r2 of
        None \<Rightarrow> Some (Inr (None, s2))
      | Some v \<Rightarrow>
          (case castle_versions_hash s2 v of
             None \<Rightarrow> Some (Inl OOB)
           | Some cv \<Rightarrow>
               let cv1 = (if size_v p \<noteq> 0 then cv\<lparr>size_v := size_v p\<rparr> else cv);
                   cv2 = cv1\<lparr>cv_snap := snap\<rparr>;
                   s3 = s2\<lparr>castle_versions_hash := (castle_versions_hash s2)(v \<mapsto> cv2)\<rparr>
               in (case castle_versions_process env s3 of
                     None \<Rightarrow> None
                   | Some (Inl f) \<Rightarrow> Some (Inl f)
                   | Some (Inr (err, s4)) \<Rightarrow>
                       (case castle_versions_hash s4 v of
                          None \<Rightarrow> Some (Inl OOB)
                        | Some cv4 \<Rightarrow>
                            if \<not> cv_inited cv4
                            then Some (Inr (None,
                                   s4\<lparr>castle_versions_hash := (castle_versions_hash s4)(v := None)\<rparr>))
                            else Some (Inr (Some v, s4)))))) = Some (Inr (r, s'))"
      using nc Some add
      by (auto simp add: castle_version_new_create_def Let_def ver_def s1_def da1_def
          split: if_splits)
    show ?thesis
    proof (cases r2)
      case None
      with rest add castle_version_add_same [of env ver par da1 sz s1 s2] show ?thesis
        by (auto simp add: s1_def)
    next
      case (Some w)
      from castle_version_add_rootless [OF r1 add [unfolded Some] vi(1)] vi(2)
      have r2': "tree_inv (castle_versions_hash s2) Tip" by simp
      have False
      proof (cases "castle_versions_hash s2 w")
        case None
        with rest Some show False by simp
      next
        case cv: (Some cv)
        define cv2 where
          "cv2 = (if size_v p \<noteq> 0 then cv\<lparr>size_v := size_v p\<rparr> else cv)\<lparr>cv_snap := snap\<rparr>"
        define s3 where "s3 = s2\<lparr>castle_versions_hash := (castle_versions_hash s2)(w \<mapsto> cv2)\<rparr>"
        from r2' cv have u: "\<not> cv_inited cv" "first_child cv = None" "w \<noteq> INVAL_VERSION"
          unfolding tree_inv_def by auto
        then have c2: "\<not> cv_inited cv2" "first_child cv2 = None" by (simp_all add: cv2_def)
        from tree_inv_outside [OF r2' _ u(3) c2]
        have "tree_inv (castle_versions_hash s3) Tip" by (simp add: s3_def)
        from castle_versions_process_rootless [OF this]
        have "\<And>err s4. castle_versions_process env s3 \<noteq> Some (Inr (err, s4))" .
        with rest Some cv show False
          by (auto simp add: Let_def s3_def cv2_def split: option.splits sum.splits)
      qed
      then show ?thesis ..
    qed
  qed
qed

lemma castle_version_new_ok:
  assumes ok: "registry_ok (castle_versions_hash s)"
    and ord: "dfs_ordered (castle_versions_hash s)"
    and new: "castle_version_new env snap par da sz s = Some (Inr (v, s'))"
  shows "registry_ok (castle_versions_hash s') \<and> dfs_ordered (castle_versions_hash s')"
proof (cases "registry_inv (castle_versions_hash s)")
  case True
  from castle_version_new_ordered [OF True ord new] show ?thesis by (simp add: registry_ok_def)
next
  case False
  with ok have rl: "tree_inv (castle_versions_hash s) Tip" by (simp add: registry_ok_def)
  from castle_version_new_rootless [OF rl new] ok ord show ?thesis by simp
qed

lemma castle_version_tree_delete_ok:
  assumes ok: "registry_ok (castle_versions_hash s)"
    and ord: "dfs_ordered (castle_versions_hash s)"
    and del: "castle_version_tree_delete env ver s = Some (Inr (ret, s'))"
  shows "registry_ok (castle_versions_hash s') \<and> dfs_ordered (castle_versions_hash s')"
proof (cases "registry_inv (castle_versions_hash s)")
  case True
  from castle_version_tree_delete_ordered [OF True ord del] show ?thesis
    by (simp add: registry_ok_def)
next
  case False
  with ok have rl: "tree_inv (castle_versions_hash s) Tip" by (simp add: registry_ok_def)
  have "s' = s"
  proof (cases "castle_versions_hash s ver")
    case None
    with del show ?thesis by (simp add: castle_version_tree_delete_def)
  next
    case (Some cv)
    with rl have "\<not> cv_inited cv" unfolding tree_inv_def by auto
    with del Some show ?thesis by (simp add: castle_version_tree_delete_def)
  qed
  with ok ord show ?thesis by simp
qed

lemma versions_read_loop_ok:
  "registry_ok (castle_versions_hash s) \<Longrightarrow> dfs_ordered (castle_versions_hash s) \<Longrightarrow>
   \<forall>e\<in>set es. version_nr e \<noteq> INVAL_VERSION \<Longrightarrow> versions_read_loop env es s = Inr (r, s') \<Longrightarrow>
   registry_ok (castle_versions_hash s') \<and> dfs_ordered (castle_versions_hash s')"
proof (induction es arbitrary: s)
  case Nil
  then show ?case by simp
next
  case (Cons e es)
  from Cons.prems(4) obtain r1 s1 where
    add: "castle_version_add env (version_nr e) (parent e) (da_id_e e) (size_e e) s = Inr (r1, s1)"
    by (auto split: sum.splits)
  from castle_version_add_ok [OF Cons.prems(1) add] Cons.prems(2,3)
  have i1: "registry_ok (castle_versions_hash s1)" "dfs_ordered (castle_versions_hash s1)"
    by auto
  show ?case
  proof (cases r1)
    case None
    with Cons.prems(4) add i1 show ?thesis by auto
  next
    case (Some v)
    define s2 where "s2 = (if VERSION_INVAL (castle_versions_last s1) \<or> v > castle_versions_last s1
             then s1\<lparr>castle_versions_last := v\<rparr> else s1)"
    have h2: "castle_versions_hash s2 = castle_versions_hash s1" by (simp add: s2_def)
    from Cons.prems(4) add Some have "versions_read_loop env es s2 = Inr (r, s')"
      by (simp add: s2_def)
    from Cons.IH [OF _ _ _ this] i1 h2 Cons.prems(3) show ?thesis by simp
  qed
qed

text \<open>\<^verbatim>\<open>castle_versions_read\<close> of entries with valid version ids, on the empty registry too.\<close>

lemma castle_versions_read_ok:
  assumes "registry_ok (castle_versions_hash s)" "dfs_ordered (castle_versions_hash s)"
    "\<forall>e\<in>set es. version_nr e \<noteq> INVAL_VERSION"
    "castle_versions_read env es s = Some (Inr (ret, s'))"
  shows "registry_ok (castle_versions_hash s') \<and> dfs_ordered (castle_versions_hash s')"
proof -
  from assms(4) obtain r s1 where l: "versions_read_loop env es s = Inr (r, s1)"
    by (auto simp add: castle_versions_read_def split: sum.splits)
  from versions_read_loop_ok [OF assms(1,2,3) l]
  have i1: "registry_ok (castle_versions_hash s1)" "dfs_ordered (castle_versions_hash s1)"
    by blast+
  show ?thesis
  proof (cases r)
    case None
    with assms(4) l have "castle_versions_process env s1 = Some (Inr (ret, s'))"
      by (simp add: castle_versions_read_def)
    from castle_versions_process_ok [OF i1(1) this] show ?thesis by (simp add: registry_ok_def)
  next
    case (Some e)
    with assms(4) l have "s' = s1" by (simp add: castle_versions_read_def)
    with i1 show ?thesis by simp
  qed
qed

lemma castle_versions_zero_init_ok:
  assumes "registry_ok (castle_versions_hash s)" "dfs_ordered (castle_versions_hash s)"
    "castle_versions_zero_init env s = Inr (r, s')"
  shows "registry_ok (castle_versions_hash s') \<and> dfs_ordered (castle_versions_hash s')"
proof -
  from assms(3) obtain r1 s1 where
    add: "castle_version_add env 0 0 INVAL_DA 0 s = Inr (r1, s1)"
    and h: "castle_versions_hash s' = castle_versions_hash s1"
    by (auto simp add: castle_versions_zero_init_def split: sum.splits option.splits)
  have "(0 :: version_t) \<noteq> INVAL_VERSION" by (simp add: INVAL_VERSION_def)
  from castle_version_add_ok [OF assms(1) add this] assms(2) h show ?thesis by simp
qed

lemma attached_flag_ok:
  assumes ok: "registry_ok h" and ord: "dfs_ordered h" and v: "h v = Some c"
  shows "registry_ok (h(v \<mapsto> c\<lparr>cv_attached := b\<rparr>)) \<and> dfs_ordered (h(v \<mapsto> c\<lparr>cv_attached := b\<rparr>))"
proof (cases "registry_inv h")
  case True
  from attached_flag_inv [OF True ord v] show ?thesis by (simp add: registry_ok_def)
next
  case False
  with ok have rl: "tree_inv h Tip" by (simp add: registry_ok_def)
  with v have "tree_inv (h(v \<mapsto> c\<lparr>cv_attached := b\<rparr>)) Tip"
    unfolding tree_inv_def by auto
  with rootless_ordered [OF this] show ?thesis by (simp add: registry_ok_def)
qed

subsection \<open>The depth-first numbering after \<^verbatim>\<open>castle_versions_process\<close>\<close>

text \<open>The registry of \<open>vs_snap1\<close> after \<^verbatim>\<open>castle_version_add\<close> of version 2, a snapshot of
  version 1 that waits on the init list, and the registry that
  \<^verbatim>\<open>castle_versions_process\<close> makes of it.\<close>

definition cv_new2 :: castle_version where
  "cv_new2 = \<lparr>version = 2, parent_u = Parent_v 1, first_child = None, next_sybling = None,
     o_order = INVAL_VERSION, r_order = INVAL_VERSION, da_id = INVAL_DA, size_v = 0,
     cv_inited = False, cv_attached = False, cv_snap = True\<rparr>"

definition vs_pending :: versions where
  "vs_pending = \<lparr>castle_versions_hash = [2 \<mapsto> cv_new2, 1 \<mapsto> cv_snap1, 0 \<mapsto> cv_root1],
     castle_versions_init_list = [2], castle_versions_last = 2, version_cnt = 3\<rparr>"

definition vs_chain :: versions where
  "vs_chain = \<lparr>castle_versions_hash =
       [2 \<mapsto> cv_new2\<lparr>parent_u := Parent (Some 1), o_order := 3, r_order := 3, cv_inited := True\<rparr>,
        1 \<mapsto> cv_snap1\<lparr>first_child := Some 2, r_order := 3\<rparr>,
        0 \<mapsto> cv_root1\<lparr>r_order := 3\<rparr>],
     castle_versions_init_list = [], castle_versions_last = 2, version_cnt = 3\<rparr>"

text \<open>The registry after \<^verbatim>\<open>castle_versions_zero_init\<close>.\<close>

definition vs_root :: versions where
  "vs_root = vs_empty\<lparr>castle_versions_hash := [0 \<mapsto> cv_root1\<lparr>first_child := None,
       o_order := INVAL_VERSION, r_order := INVAL_VERSION\<rparr>],
     castle_versions_last := 0, version_cnt := 1\<rparr>"

lemma vs_pending_ok: "registry_ok (castle_versions_hash vs_pending)"
  unfolding registry_ok_def registry_inv_def
  by (rule disjI2, rule exI [of _ "Nd 1 Tip Tip"])
     (simp add: tree_inv_def vs_pending_def cv_new2_def cv_snap1_def cv_root1_def INVAL_VERSION_def)

lemma vs_pending_process:
  "castle_versions_process env0 vs_pending = Some (Inr (0, vs_chain))"
  by (simp add: v_defs process_init_list.simps process_dfs.simps insert_walk.simps
      vs_pending_def vs_chain_def cv_new2_def cv_root1_def cv_snap1_def)

lemma vs_root_ok:
  "registry_ok (castle_versions_hash vs_root) \<and> dfs_ordered (castle_versions_hash vs_root)"
proof -
  have "registry_ok (castle_versions_hash vs_empty)" "dfs_ordered (castle_versions_hash vs_empty)"
    using registry_ok_empty by (simp_all add: vs_empty_def dfs_ordered_def)
  moreover have "castle_versions_zero_init env0 vs_empty = Inr (0, vs_root)"
    using zero_init_then_new_snapshot by (simp add: vs_root_def)
  ultimately show ?thesis by (rule castle_versions_zero_init_ok)
qed

lemma vs_root_new: "castle_version_new env0 True 0 INVAL_DA 0 vs_root = Some (Inr (1, vs_snap1))"
  using zero_init_then_new_snapshot by (simp add: vs_root_def)

lemma dfs_ordered_iff:
  "dfs_ordered h =
     (\<forall>v cv. h v = Some cv \<and> cv_inited cv \<and> v \<noteq> 0 \<longrightarrow>
        (\<exists>p cp. parent_u cv = Parent (Some p) \<and> h p = Some cp \<and>
           o_order cp < o_order cv \<and> o_order cv \<le> r_order cp))"
proof -
  have "below_parent h cv =
        (\<exists>p cp. parent_u cv = Parent (Some p) \<and> h p = Some cp \<and>
           o_order cp < o_order cv \<and> o_order cv \<le> r_order cp)" for cv
    unfolding below_parent_def by (auto split: parent_link.splits option.splits)
  then show ?thesis unfolding dfs_ordered_def by simp
qed

text \<open>Claim C3 (P5 of the specification). The invariant of the registry holds of the empty
  registry and is kept by every operation of the registry. From a registry that satisfies
  it, a run of \<^verbatim>\<open>castle_versions_process\<close> that returns leaves a registry in which every
  inited version other than the root has a parent, and
  \<open>parent.o_order < o_order \<le> parent.r_order\<close>; so do \<^verbatim>\<open>castle_version_new\<close> and
  \<^verbatim>\<open>castle_version_tree_delete\<close>, which run it, when they return.\<close>

theorem castle_versions_process_dfs_order:
  assumes "registry_ok (castle_versions_hash s)"
    and "castle_versions_process env s = Some (Inr (err, s')) \<or>
         dfs_ordered (castle_versions_hash s) \<and>
           (castle_version_new env snap par da sz s = Some (Inr (nv, s')) \<or>
            castle_version_tree_delete env ver s = Some (Inr (ret, s')))"
  shows "registry_ok (castle_versions_hash s') \<and>
         (\<forall>v cv. castle_versions_hash s' v = Some cv \<and> cv_inited cv \<and> v \<noteq> 0 \<longrightarrow>
            (\<exists>p cp. parent_u cv = Parent (Some p) \<and> castle_versions_hash s' p = Some cp \<and>
               o_order cp < o_order cv \<and> o_order cv \<le> r_order cp))"
proof -
  have "registry_ok (castle_versions_hash s') \<and> dfs_ordered (castle_versions_hash s')"
    using assms castle_versions_process_ok [of s env err s']
      castle_version_new_ok [of s env snap par da sz nv s']
      castle_version_tree_delete_ok [of s env ver ret s']
    unfolding registry_ok_def by blast
  then show ?thesis unfolding dfs_ordered_iff .
qed

theorem castle_versions_process_dfs_order_witness:
  "castle_versions_process env0 vs_pending = Some (Inr (0, vs_chain)) \<and>
   registry_ok (castle_versions_hash vs_chain) \<and> dfs_ordered (castle_versions_hash vs_chain) \<and>
   castle_version_new env0 True 0 INVAL_DA 0 vs_root = Some (Inr (1, vs_snap1)) \<and>
   registry_ok (castle_versions_hash vs_snap1) \<and> dfs_ordered (castle_versions_hash vs_snap1) \<and>
   castle_version_tree_delete env0 1 vs_snap1 =
     Some (Inr (0, vs_snap1\<lparr>castle_versions_hash := [0 \<mapsto> cv_root_alone]\<rparr>)) \<and>
   registry_ok [0 \<mapsto> cv_root_alone] \<and> dfs_ordered [0 \<mapsto> cv_root_alone]"
proof -
  note w = castle_versions_process_dfs_order [folded dfs_ordered_iff]
  have a: "registry_ok (castle_versions_hash vs_chain) \<and> dfs_ordered (castle_versions_hash vs_chain)"
    by (rule w [where s = vs_pending and env = env0 and err = 0], rule vs_pending_ok,
        rule disjI1, rule vs_pending_process)
  have b: "registry_ok (castle_versions_hash vs_snap1) \<and> dfs_ordered (castle_versions_hash vs_snap1)"
    by (rule w [where s = vs_root and env = env0 and snap = True and par = 0 and da = INVAL_DA
          and sz = 0 and nv = 1], rule vs_root_ok [THEN conjunct1], rule disjI2, rule conjI,
        rule vs_root_ok [THEN conjunct2], rule disjI1, rule vs_root_new)
  have "registry_ok (castle_versions_hash (vs_snap1\<lparr>castle_versions_hash := [0 \<mapsto> cv_root_alone]\<rparr>)) \<and>
        dfs_ordered (castle_versions_hash (vs_snap1\<lparr>castle_versions_hash := [0 \<mapsto> cv_root_alone]\<rparr>))"
    by (rule w [where s = vs_snap1 and env = env0 and ver = 1 and ret = 0],
        rule b [THEN conjunct1], rule disjI2, rule conjI, rule b [THEN conjunct2], rule disjI2,
        rule tree_delete_snap1)
  then have c: "registry_ok [0 \<mapsto> cv_root_alone] \<and> dfs_ordered [0 \<mapsto> cv_root_alone]"
    by simp
  show ?thesis
    by (intro conjI) (rule vs_pending_process | rule vs_root_new | rule tree_delete_snap1 |
        rule a [THEN conjunct1] | rule a [THEN conjunct2] | rule b [THEN conjunct1] |
        rule b [THEN conjunct2] | rule c [THEN conjunct1] | rule c [THEN conjunct2])+
qed

end
